theory Spec2Isabelle
  imports Main "HOL-Library.Word"
begin

unbundle bit_operations_syntax

section \<open>The FSST decoder of \<open>fsst.h\<close>\<close>

text \<open>
  The header declares the decoder table \<open>fsst_decoder_t\<close> and one inline function,
  \<open>fsst_decompress\<close>. The model below follows the function statement by statement.

  \<^item> \<open>size_t\<close> is a 64-bit word: \<open>posOut + len[code]\<close> and \<open>size - 1\<close> wrap as they do
    in C.
  \<^item> The compressed string \<open>strIn\<close> with its length \<open>lenIn\<close> is a list of bytes;
    \<open>lenIn\<close> is the length of that list. The input cursor \<open>posIn\<close> is a natural number:
    it never exceeds \<open>lenIn + 1\<close>, so it cannot wrap for any string that fits in memory.
  \<^item> The output buffer is memory addressed from the pointer \<open>output\<close> by a \<open>size_t\<close>
    index. A store through \<open>strOut[i]\<close> has a definite effect for every index, also
    for one outside \<open>[0, size)\<close>, so stores are total and are logged.
  \<^item> A load outside the object it is taken from has no definite value. The two loads
    that can leave their object (the literal after a trailing escape byte, and a symbol
    byte beyond the eight bytes of the entry) end the run with a \<open>fault\<close>.
\<close>

type_synonym byte = "8 word"
type_synonym size_t = "64 word"

definition FSST_ESC :: size_t where
  "FSST_ESC = 255"

record fsst_decoder_t =
  zeroTerminated :: byte
  len :: "byte list"
  symbol :: "64 word list"

datatype fault =
    InputOverread nat
  | SymbolOverread nat nat

text \<open>
  The locals and the memory the function works on, with two logs of what it touched:
  \<open>loads\<close> are the indices of \<open>strIn\<close> read, \<open>stores\<close> the indices of \<open>strOut\<close>
  written, both in program order.
\<close>

record fsst_state =
  posIn :: nat
  posOut :: size_t
  strOut :: "size_t \<Rightarrow> byte"
  loads :: "nat list"
  stores :: "size_t list"

definition store :: "size_t \<Rightarrow> byte \<Rightarrow> fsst_state \<Rightarrow> fsst_state" where
  "store i b s = s\<lparr>strOut := (strOut s)(i := b), stores := stores s @ [i]\<rparr>"

text \<open>
  Byte \<open>j\<close> of the storage of a symbol entry. The table keeps a symbol in little-endian
  order, so byte \<open>j\<close> of the entry is bits \<open>8j .. 8j+7\<close> of the word.
\<close>

definition symbol_byte :: "64 word \<Rightarrow> nat \<Rightarrow> byte" where
  "symbol_byte w j = ucast (drop_bit (8 * j) w)"

text \<open>
  \<open>symbolPointer[posWrite]\<close> where
  \<open>symbolPointer = ((unsigned char*) &symbol[code]) - base\<close>: the byte at offset
  \<open>posWrite - base\<close> from the start of entry \<open>code\<close>.
\<close>

definition symbolPointer_load :: "fsst_decoder_t \<Rightarrow> nat \<Rightarrow> size_t \<Rightarrow> size_t \<Rightarrow> fault + byte" where
  "symbolPointer_load decoder code base posWrite =
     (let j = unat (posWrite - base)
      in if j < 8 then Inr (symbol_byte (symbol decoder ! code) j)
         else Inl (SymbolOverread code j))"

text \<open>The inner loop \<open>for(; posWrite < endWrite; posWrite++) strOut[posWrite] = symbolPointer[posWrite]\<close>.\<close>

function copy_loop ::
  "fsst_decoder_t \<Rightarrow> nat \<Rightarrow> size_t \<Rightarrow> size_t \<Rightarrow> size_t \<Rightarrow> fsst_state \<Rightarrow> fault + fsst_state" where
  "copy_loop decoder code base endWrite posWrite s =
     (if posWrite < endWrite then
        (case symbolPointer_load decoder code base posWrite of
           Inl e \<Rightarrow> Inl e
         | Inr b \<Rightarrow> copy_loop decoder code base endWrite (posWrite + 1) (store posWrite b s))
      else Inr s)"
  by pat_completeness auto
termination
proof (relation "measure (\<lambda>(decoder, code, base, endWrite, posWrite, s). unat endWrite - unat posWrite)")
  show "wf (measure (\<lambda>(decoder, code, base, endWrite, posWrite, s). unat endWrite - unat posWrite))"
    by simp
next
  fix decoder :: fsst_decoder_t and code :: nat and base endWrite posWrite :: size_t
    and s :: fsst_state and b :: byte
  assume lt: "posWrite < endWrite"
  then have "unat endWrite - unat (posWrite + 1) < unat endWrite - unat posWrite"
    by unat_arith
  then show "((decoder, code, base, endWrite, posWrite + 1, store posWrite b s),
      (decoder, code, base, endWrite, posWrite, s))
    \<in> measure (\<lambda>(decoder, code, base, endWrite, posWrite, s). unat endWrite - unat posWrite)"
    by simp
qed

declare copy_loop.simps [simp del]

lemma posIn_store [simp]: "posIn (store i b s) = posIn s"
  by (simp add: store_def)

lemma posOut_store [simp]: "posOut (store i b s) = posOut s"
  by (simp add: store_def)

lemma loads_store [simp]: "loads (store i b s) = loads s"
  by (simp add: store_def)

lemma strOut_store [simp]: "strOut (store i b s) = (strOut s)(i := b)"
  by (simp add: store_def)

lemma stores_store [simp]: "stores (store i b s) = stores s @ [i]"
  by (simp add: store_def)

lemma copy_loop_locals:
  "copy_loop decoder code base endWrite posWrite s = Inr s' \<Longrightarrow>
     posIn s' = posIn s \<and> posOut s' = posOut s \<and> loads s' = loads s"
proof (induction decoder code base endWrite posWrite s rule: copy_loop.induct)
  case (1 decoder code base endWrite posWrite s)
  show ?case
  proof (cases "posWrite < endWrite")
    case True
    with "1.prems" copy_loop.simps [of decoder code base endWrite posWrite s] obtain b where
      b: "symbolPointer_load decoder code base posWrite = Inr b" and
      rec: "copy_loop decoder code base endWrite (posWrite + 1) (store posWrite b s) = Inr s'"
      by (auto split: sum.splits)
    from "1.IH" [OF True b rec] show ?thesis by simp
  next
    case False
    with "1.prems" copy_loop.simps [of decoder code base endWrite posWrite s]
    show ?thesis by simp
  qed
qed

text \<open>
  One iteration of \<open>while (posIn < lenIn)\<close>, entered with \<open>posIn < lenIn\<close>. The code byte
  is loaded and \<open>posIn\<close> incremented; then either the symbol of the code is copied, up to
  the end of the buffer, or the byte after the escape is copied, if there is room for
  it. The literal \<open>strIn[posIn]\<close> is loaded only under \<open>posOut < size\<close>, as in the source.
\<close>

definition fsst_body ::
  "fsst_decoder_t \<Rightarrow> byte list \<Rightarrow> size_t \<Rightarrow> fsst_state \<Rightarrow> fault + fsst_state" where
  "fsst_body decoder strIn sz s =
     (let code = (ucast (strIn ! posIn s) :: size_t);
          s1 = s\<lparr>posIn := posIn s + 1, loads := loads s @ [posIn s]\<rparr>
      in if code < FSST_ESC then
           (let posWrite = posOut s1;
                endWrite = posOut s1 + ucast (len decoder ! unat code);
                s2 = s1\<lparr>posOut := endWrite\<rparr>;
                endWrite' = (if posOut s2 > sz then sz else endWrite)
            in copy_loop decoder (unat code) posWrite endWrite' posWrite s2)
         else
           (if posOut s1 < sz then
              (if posIn s1 < length strIn then
                 Inr ((store (posOut s1) (strIn ! posIn s1) (s1\<lparr>loads := loads s1 @ [posIn s1]\<rparr>))
                        \<lparr>posIn := posIn s1 + 1, posOut := posOut s1 + 1\<rparr>)
               else Inl (InputOverread (posIn s1)))
            else Inr (s1\<lparr>posIn := posIn s1 + 1, posOut := posOut s1 + 1\<rparr>)))"

lemma fsst_body_posIn:
  assumes "fsst_body decoder strIn sz s = Inr s'"
  shows "posIn s < posIn s'"
proof (cases "(ucast (strIn ! posIn s) :: size_t) < FSST_ESC")
  case True
  with assms show ?thesis
    by (auto simp: fsst_body_def Let_def dest!: copy_loop_locals)
next
  case False
  with assms show ?thesis
    by (auto simp: fsst_body_def Let_def split: if_splits)
qed

text \<open>The loop \<open>while (posIn < lenIn)\<close>.\<close>

function fsst_loop ::
  "fsst_decoder_t \<Rightarrow> byte list \<Rightarrow> size_t \<Rightarrow> fsst_state \<Rightarrow> fault + fsst_state" where
  "fsst_loop decoder strIn sz s =
     (if posIn s < length strIn then
        (case fsst_body decoder strIn sz s of
           Inl e \<Rightarrow> Inl e
         | Inr s' \<Rightarrow> fsst_loop decoder strIn sz s')
      else Inr s)"
  by pat_completeness auto
termination
proof (relation "measure (\<lambda>(decoder, strIn, sz, s). length strIn - posIn s)")
  show "wf (measure (\<lambda>(decoder, strIn, sz, s). length strIn - posIn s))"
    by simp
next
  fix decoder :: fsst_decoder_t and strIn :: "byte list" and sz :: size_t
    and s s' :: fsst_state
  assume "posIn s < length strIn" and "fsst_body decoder strIn sz s = Inr s'"
  then have "length strIn - posIn s' < length strIn - posIn s"
    using fsst_body_posIn [of decoder strIn sz s s'] by arith
  then show "((decoder, strIn, sz, s'), (decoder, strIn, sz, s))
      \<in> measure (\<lambda>(decoder, strIn, sz, s). length strIn - posIn s)"
    by simp
qed

declare fsst_loop.simps [simp del]

text \<open>
  The function: the locals start at 0, the loop runs, and in zero-terminated mode the
  last byte of the buffer is set to 0 when the output reached the end of the buffer.
  The index \<open>size - 1\<close> is computed in \<open>size_t\<close>. The value returned is \<open>posOut\<close> of
  the final state.
\<close>

definition fsst_init :: "(size_t \<Rightarrow> byte) \<Rightarrow> fsst_state" where
  "fsst_init output = \<lparr>posIn = 0, posOut = 0, strOut = output, loads = [], stores = []\<rparr>"

definition fsst_decompress ::
  "fsst_decoder_t \<Rightarrow> byte list \<Rightarrow> size_t \<Rightarrow> (size_t \<Rightarrow> byte) \<Rightarrow> fault + fsst_state" where
  "fsst_decompress decoder strIn sz output =
     (case fsst_loop decoder strIn sz (fsst_init output) of
        Inl e \<Rightarrow> Inl e
      | Inr s \<Rightarrow>
          Inr (if posOut s \<ge> sz \<and> zeroTerminated decoder AND 1 \<noteq> 0
               then store (sz - 1) 0 s else s))"

section \<open>The data model of the specification\<close>

text \<open>
  The table the decoder trusts: both arrays have the 255 entries of the C struct and no
  symbol is longer than the eight bytes of its entry. The decoder does not check this.
\<close>

definition decoder_ok :: "fsst_decoder_t \<Rightarrow> bool" where
  "decoder_ok decoder \<longleftrightarrow>
     length (len decoder) = 255 \<and> length (symbol decoder) = 255 \<and>
     list_all (\<lambda>l. l \<le> 8) (len decoder)"

text \<open>
  A compressed string is well formed when every escape byte 255 is followed by its
  literal byte: the last byte of the string is not an escape marker.
\<close>

fun well_formed :: "byte list \<Rightarrow> bool" where
  "well_formed [] = True"
| "well_formed (c # cs) =
     (if c = 255 then (case cs of [] \<Rightarrow> False | b # cs' \<Rightarrow> well_formed cs')
      else well_formed cs)"

text \<open>The bytes a code stands for: the first \<open>len[code]\<close> bytes of its entry.\<close>

definition symbol_bytes :: "fsst_decoder_t \<Rightarrow> byte \<Rightarrow> byte list" where
  "symbol_bytes decoder c =
     map (symbol_byte (symbol decoder ! unat c)) [0..<unat (len decoder ! unat c)]"

text \<open>
  The decompressed string: each unit of the compressed string expanded in order, a code
  to its symbol, an escape unit to its literal byte.
\<close>

fun expand :: "fsst_decoder_t \<Rightarrow> byte list \<Rightarrow> byte list" where
  "expand decoder [] = []"
| "expand decoder (c # cs) =
     (if c = 255 then (case cs of [] \<Rightarrow> [] | b # cs' \<Rightarrow> b # expand decoder cs')
      else symbol_bytes decoder c @ expand decoder cs)"

text \<open>
  The logical length: the sum of \<open>len[code]\<close> over the code bytes plus 1 for each
  escape unit.
\<close>

fun logical_length :: "fsst_decoder_t \<Rightarrow> byte list \<Rightarrow> nat" where
  "logical_length decoder [] = 0"
| "logical_length decoder (c # cs) =
     (if c = 255 then (case cs of [] \<Rightarrow> 0 | b # cs' \<Rightarrow> 1 + logical_length decoder cs')
      else unat (len decoder ! unat c) + logical_length decoder cs)"

text \<open>
  \<open>blit m sz p bs\<close> is the memory \<open>m\<close> with the bytes \<open>bs\<close> laid down from index
  \<open>p\<close>, cut off at the capacity \<open>sz\<close>; \<open>blit_log sz p n\<close> lists the indices that
  laying down \<open>n\<close> bytes touches, in increasing order.
\<close>

definition blit :: "(size_t \<Rightarrow> byte) \<Rightarrow> size_t \<Rightarrow> nat \<Rightarrow> byte list \<Rightarrow> size_t \<Rightarrow> byte" where
  "blit m sz p bs =
     (\<lambda>i. if i < sz \<and> p \<le> unat i \<and> unat i < p + length bs then bs ! (unat i - p) else m i)"

definition blit_log :: "size_t \<Rightarrow> nat \<Rightarrow> nat \<Rightarrow> size_t list" where
  "blit_log sz p n = map of_nat [p..<min (p + n) (unat sz)]"

text \<open>The memory after the inner loop has run from \<open>posWrite\<close> to \<open>endWrite\<close>.\<close>

definition copy_mem ::
  "64 word \<Rightarrow> size_t \<Rightarrow> size_t \<Rightarrow> size_t \<Rightarrow> (size_t \<Rightarrow> byte) \<Rightarrow> size_t \<Rightarrow> byte" where
  "copy_mem w base posWrite endWrite m =
     (\<lambda>i. if posWrite \<le> i \<and> i < endWrite then symbol_byte w (unat i - unat base) else m i)"

text \<open>
  What a caller observes of a run: the value returned, a byte of the output memory, the
  indices stored to. \<open>filled b\<close> is a memory holding \<open>b\<close> everywhere.
\<close>

definition returned :: "fault + fsst_state \<Rightarrow> size_t option" where
  "returned r = (case r of Inl e \<Rightarrow> None | Inr s \<Rightarrow> Some (posOut s))"

definition byte_at :: "fault + fsst_state \<Rightarrow> size_t \<Rightarrow> byte option" where
  "byte_at r i = (case r of Inl e \<Rightarrow> None | Inr s \<Rightarrow> Some (strOut s i))"

definition stored :: "fault + fsst_state \<Rightarrow> size_t list option" where
  "stored r = (case r of Inl e \<Rightarrow> None | Inr s \<Rightarrow> Some (stores s))"

definition filled :: "byte \<Rightarrow> size_t \<Rightarrow> byte" where
  "filled b = (\<lambda>i. b)"

text \<open>
  The table of the example scenario: code 5 is \<open>he\<close>, code 6 is \<open>llo\<close>, every other
  code a single zero byte. \<open>example_table_z\<close> is the same table in zero-terminated mode.
\<close>

definition example_table :: fsst_decoder_t where
  "example_table =
     \<lparr>zeroTerminated = 0, len = (replicate 255 1)[5 := 2, 6 := 3],
      symbol = (replicate 255 0)[5 := 0x6568, 6 := 0x6f6c6c]\<rparr>"

definition example_table_z :: fsst_decoder_t where
  "example_table_z = example_table\<lparr>zeroTerminated := 1\<rparr>"

section \<open>The copy loop as the specification reframes it\<close>

text \<open>
  The clamped per-byte copy of the design notes: for each offset \<open>j\<close> below
  \<open>min(len[code], size - posOut)\<close>, byte \<open>j\<close> of the symbol word goes to output index
  \<open>posOut + j\<close>. The difference \<open>size - posOut\<close> is 0 when \<open>posOut\<close> is beyond the
  capacity. \<open>fsst_body_clamped\<close>, \<open>fsst_loop_clamped\<close> and \<open>fsst_decompress_clamped\<close>
  are the loop body, the loop and the function with this copy in place of the pointer
  loop; everything else is as in the source.
\<close>

definition clamped_copy :: "fsst_decoder_t \<Rightarrow> nat \<Rightarrow> size_t \<Rightarrow> fsst_state \<Rightarrow> fsst_state" where
  "clamped_copy decoder code sz s =
     fold (\<lambda>j. store (posOut s + of_nat j) (symbol_byte (symbol decoder ! code) j))
       [0..<min (unat (len decoder ! code)) (unat sz - unat (posOut s))] s"

definition fsst_body_clamped ::
  "fsst_decoder_t \<Rightarrow> byte list \<Rightarrow> size_t \<Rightarrow> fsst_state \<Rightarrow> fault + fsst_state" where
  "fsst_body_clamped decoder strIn sz s =
     (let code = (ucast (strIn ! posIn s) :: size_t);
          s1 = s\<lparr>posIn := posIn s + 1, loads := loads s @ [posIn s]\<rparr>
      in if code < FSST_ESC then
           Inr ((clamped_copy decoder (unat code) sz s1)
                  \<lparr>posOut := posOut s1 + ucast (len decoder ! unat code)\<rparr>)
         else
           (if posOut s1 < sz then
              (if posIn s1 < length strIn then
                 Inr ((store (posOut s1) (strIn ! posIn s1) (s1\<lparr>loads := loads s1 @ [posIn s1]\<rparr>))
                        \<lparr>posIn := posIn s1 + 1, posOut := posOut s1 + 1\<rparr>)
               else Inl (InputOverread (posIn s1)))
            else Inr (s1\<lparr>posIn := posIn s1 + 1, posOut := posOut s1 + 1\<rparr>)))"

lemma fold_store_posIn:
  "posIn (fold (\<lambda>j. store (f j) (g j)) js s) = posIn s"
  by (induction js arbitrary: s) simp_all

lemma fsst_body_clamped_posIn:
  assumes "fsst_body_clamped decoder strIn sz s = Inr s'"
  shows "posIn s < posIn s'"
  using assms
  by (auto simp: fsst_body_clamped_def Let_def clamped_copy_def fold_store_posIn split: if_splits)

function fsst_loop_clamped ::
  "fsst_decoder_t \<Rightarrow> byte list \<Rightarrow> size_t \<Rightarrow> fsst_state \<Rightarrow> fault + fsst_state" where
  "fsst_loop_clamped decoder strIn sz s =
     (if posIn s < length strIn then
        (case fsst_body_clamped decoder strIn sz s of
           Inl e \<Rightarrow> Inl e
         | Inr s' \<Rightarrow> fsst_loop_clamped decoder strIn sz s')
      else Inr s)"
  by pat_completeness auto
termination
proof (relation "measure (\<lambda>(decoder, strIn, sz, s). length strIn - posIn s)")
  show "wf (measure (\<lambda>(decoder, strIn, sz, s). length strIn - posIn s))"
    by simp
next
  fix decoder :: fsst_decoder_t and strIn :: "byte list" and sz :: size_t
    and s s' :: fsst_state
  assume "posIn s < length strIn" and "fsst_body_clamped decoder strIn sz s = Inr s'"
  then have "length strIn - posIn s' < length strIn - posIn s"
    using fsst_body_clamped_posIn [of decoder strIn sz s s'] by arith
  then show "((decoder, strIn, sz, s'), (decoder, strIn, sz, s))
      \<in> measure (\<lambda>(decoder, strIn, sz, s). length strIn - posIn s)"
    by simp
qed

declare fsst_loop_clamped.simps [simp del]

definition fsst_decompress_clamped ::
  "fsst_decoder_t \<Rightarrow> byte list \<Rightarrow> size_t \<Rightarrow> (size_t \<Rightarrow> byte) \<Rightarrow> fault + fsst_state" where
  "fsst_decompress_clamped decoder strIn sz output =
     (case fsst_loop_clamped decoder strIn sz (fsst_init output) of
        Inl e \<Rightarrow> Inl e
      | Inr s \<Rightarrow>
          Inr (if posOut s \<ge> sz \<and> zeroTerminated decoder AND 1 \<noteq> 0
               then store (sz - 1) 0 s else s))"

section \<open>The run as a sequence of states\<close>

text \<open>
  The states in which the loop condition \<open>posIn < lenIn\<close> is evaluated, in order: the
  state before each iteration and the state in which the loop ends (or, when an
  iteration faults, the state before it).
\<close>

function fsst_states ::
  "fsst_decoder_t \<Rightarrow> byte list \<Rightarrow> size_t \<Rightarrow> fsst_state \<Rightarrow> fsst_state list" where
  "fsst_states decoder strIn sz s =
     s # (if posIn s < length strIn then
            (case fsst_body decoder strIn sz s of
               Inl e \<Rightarrow> []
             | Inr s' \<Rightarrow> fsst_states decoder strIn sz s')
          else [])"
  by pat_completeness auto
termination
proof (relation "measure (\<lambda>(decoder, strIn, sz, s). length strIn - posIn s)")
  show "wf (measure (\<lambda>(decoder, strIn, sz, s). length strIn - posIn s))"
    by simp
next
  fix decoder :: fsst_decoder_t and strIn :: "byte list" and sz :: size_t
    and s s' :: fsst_state
  assume "posIn s < length strIn" and "fsst_body decoder strIn sz s = Inr s'"
  then have "length strIn - posIn s' < length strIn - posIn s"
    using fsst_body_posIn [of decoder strIn sz s s'] by arith
  then show "((decoder, strIn, sz, s'), (decoder, strIn, sz, s))
      \<in> measure (\<lambda>(decoder, strIn, sz, s). length strIn - posIn s)"
    by simp
qed

declare fsst_states.simps [simp del]

text \<open>
  Two states agree on what was written: the same cursors, the same loads, the same
  stores, and the same byte at every index stored to. The bytes never stored to may
  differ.
\<close>

definition same_writes :: "fsst_state \<Rightarrow> fsst_state \<Rightarrow> bool" where
  "same_writes s t \<longleftrightarrow>
     posIn s = posIn t \<and> posOut s = posOut t \<and> loads s = loads t \<and> stores s = stores t \<and>
     (\<forall>i \<in> set (stores s). strOut s i = strOut t i)"

text \<open>
  Two invariants of the loop used in the proofs. \<open>run_inv\<close>: what remains of the input
  is well formed and its logical length still fits above \<open>posOut\<close>. \<open>loads_inv\<close>: the
  loads so far are strictly increasing and lie below the input cursor and the length.
\<close>

definition run_inv :: "fsst_decoder_t \<Rightarrow> byte list \<Rightarrow> fsst_state \<Rightarrow> bool" where
  "run_inv decoder strIn s \<longleftrightarrow>
     posIn s \<le> length strIn \<and> well_formed (drop (posIn s) strIn) \<and>
     unat (posOut s) + logical_length decoder (drop (posIn s) strIn) < 2 ^ 64"

definition loads_inv :: "byte list \<Rightarrow> fsst_state \<Rightarrow> bool" where
  "loads_inv strIn s \<longleftrightarrow>
     sorted_wrt (<) (loads s) \<and> (\<forall>k \<in> set (loads s). k < posIn s \<and> k < length strIn)"

section \<open>Properties of the loops\<close>

lemma word_idx_Suc:
  fixes p e :: size_t
  assumes "p < e"
  shows "unat (p + 1) = Suc (unat p)"
  using assms by unat_arith

lemma copy_mem_empty: "\<not> posWrite < endWrite \<Longrightarrow> copy_mem w base posWrite endWrite m = m"
  by (auto simp: copy_mem_def fun_eq_iff)

lemma copy_mem_step:
  assumes "posWrite < endWrite"
  shows "copy_mem w base (posWrite + 1) endWrite (m(posWrite := symbol_byte w (unat posWrite - unat base)))
    = copy_mem w base posWrite endWrite m"
proof
  fix i :: size_t
  have "posWrite + 1 \<le> i \<longleftrightarrow> posWrite \<le> i \<and> i \<noteq> posWrite"
    using word_idx_Suc [OF assms] by (auto simp: word_le_nat_alt word_unat_eq_iff)
  with assms show "copy_mem w base (posWrite + 1) endWrite (m(posWrite := symbol_byte w (unat posWrite - unat base))) i
    = copy_mem w base posWrite endWrite m i"
    by (auto simp: copy_mem_def)
qed

lemma copy_mem_store:
  assumes "posWrite < endWrite"
  shows "copy_mem w base (posWrite + 1) endWrite
           (strOut (store posWrite (symbol_byte w (unat posWrite - unat base)) s))
    = copy_mem w base posWrite endWrite (strOut s)"
  using copy_mem_step [OF assms] by simp

lemma store_overwritten:
  "(store i b s)\<lparr>strOut := m, stores := l\<rparr> = s\<lparr>strOut := m, stores := l\<rparr>"
  by (simp add: store_def)

lemma copy_loop_result:
  assumes "unat base \<le> unat posWrite" and "unat endWrite \<le> unat base + 8"
  shows "copy_loop decoder code base endWrite posWrite s =
     Inr (s\<lparr>strOut := copy_mem (symbol decoder ! code) base posWrite endWrite (strOut s),
              stores := stores s @ map of_nat [unat posWrite..<unat endWrite]\<rparr>)"
  using assms
proof (induction decoder code base endWrite posWrite s rule: copy_loop.induct)
  case (1 decoder code base endWrite posWrite s)
  show ?case
  proof (cases "posWrite < endWrite")
    case False
    then have "unat endWrite \<le> unat posWrite"
      by (simp add: word_less_nat_alt)
    then show ?thesis
      using False copy_loop.simps [of decoder code base endWrite posWrite s]
      by (simp add: copy_mem_empty)
  next
    case True
    then have lt: "unat posWrite < unat endWrite"
      by (simp add: word_less_nat_alt)
    have suc: "unat (posWrite + 1) = Suc (unat posWrite)"
      using True by (rule word_idx_Suc)
    have base_le: "base \<le> posWrite"
      using "1.prems"(1) by (simp add: word_le_nat_alt)
    have off: "unat (posWrite - base) = unat posWrite - unat base"
      using base_le by (rule unat_sub)
    with lt "1.prems" have "unat (posWrite - base) < 8"
      by arith
    then have b: "symbolPointer_load decoder code base posWrite =
        Inr (symbol_byte (symbol decoder ! code) (unat posWrite - unat base))"
      by (simp add: symbolPointer_load_def Let_def off)
    have log: "[unat posWrite..<unat endWrite] = unat posWrite # [unat (posWrite + 1)..<unat endWrite]"
      using lt suc by (simp add: upt_conv_Cons)
    have "copy_loop decoder code base endWrite (posWrite + 1)
          (store posWrite (symbol_byte (symbol decoder ! code) (unat posWrite - unat base)) s) =
        Inr (s\<lparr>strOut := copy_mem (symbol decoder ! code) base posWrite endWrite (strOut s),
              stores := stores s @ map of_nat [unat posWrite..<unat endWrite]\<rparr>)"
      using "1.IH" [OF True b] "1.prems" suc
      by (simp add: copy_mem_store [OF True] log store_overwritten del: strOut_store)
    then show ?thesis
      using True b copy_loop.simps [of decoder code base endWrite posWrite s]
      by simp
  qed
qed

lemma length_symbol_bytes [simp]:
  "length (symbol_bytes decoder c) = unat (len decoder ! unat c)"
  by (simp add: symbol_bytes_def)

lemma length_expand: "length (expand decoder cs) = logical_length decoder cs"
  by (induction decoder cs rule: expand.induct) (auto split: list.splits)

lemma blit_Nil [simp]: "blit m sz p [] = m"
  by (auto simp: blit_def fun_eq_iff)

lemma blit_append:
  "blit (blit m sz p as) sz (p + length as) bs = blit m sz p (as @ bs)"
  by (auto simp: blit_def fun_eq_iff nth_append)

lemma blit_log_0 [simp]: "blit_log sz p 0 = []"
  by (simp add: blit_log_def)

lemma upt_clip_append:
  fixes p a b z :: nat
  shows "[p..<min (p + a) z] @ [p + a..<min (p + a + b) z] = [p..<min (p + a + b) z]"
proof (cases "z \<le> p + a")
  case True
  then show ?thesis by (simp add: min_absorb2)
next
  case False
  define m where "m = min (p + a + b) z"
  from False have le: "p + a \<le> m" by (simp add: m_def)
  then obtain k where k: "m = (p + a) + k"
    using le_Suc_ex by blast
  have "[p..<(p + a) + k] = [p..<p + a] @ [p + a..<(p + a) + k]"
    by (rule upt_add_eq_append) simp
  with False k show ?thesis
    by (simp add: m_def [symmetric] min_absorb1)
qed

lemma blit_log_add:
  "blit_log sz p a @ blit_log sz (p + a) b = blit_log sz p (a + b)"
  using upt_clip_append [of p a "unat sz" b]
  by (simp add: blit_log_def add.assoc flip: map_append)

lemma decoder_ok_len:
  fixes c :: byte
  assumes "decoder_ok decoder" and "c \<noteq> 255"
  shows "unat (len decoder ! unat c) \<le> 8"
proof -
  have "unat c < 2 ^ LENGTH(8)" by (rule unsigned_less)
  then have "unat c < 256" by simp
  moreover have "unat c \<noteq> 255" using assms(2) by (simp add: word_unat_eq_iff)
  ultimately have "unat c < length (len decoder)" using assms(1) by (simp add: decoder_ok_def)
  with assms(1) have "len decoder ! unat c \<le> 8"
    by (simp add: decoder_ok_def list_all_length)
  then show ?thesis by (simp add: word_le_nat_alt)
qed

lemma unat_code [simp]:
  fixes c :: byte
  shows "unat (ucast c :: size_t) = unat c"
proof -
  have "unat c < 2 ^ LENGTH(8)" by (rule unsigned_less)
  then have "unat c < 2 ^ 64" by simp
  then show ?thesis by (simp add: unsigned_ucast_eq take_bit_nat_eq_self)
qed

lemma byte_code_less_ESC:
  fixes c :: byte
  shows "(ucast c :: size_t) < FSST_ESC \<longleftrightarrow> c \<noteq> 255"
proof -
  have "unat c < 2 ^ LENGTH(8)" by (rule unsigned_less)
  then have "unat c < 256" by simp
  then show ?thesis
    by (auto simp: FSST_ESC_def word_less_nat_alt word_unat_eq_iff)
qed

lemma copy_mem_blit:
  fixes posOut0 endWrite sz :: size_t and c :: byte
  assumes e: "unat endWrite = unat posOut0 + unat (len decoder ! unat c)"
  shows "copy_mem (symbol decoder ! unat c) posOut0 posOut0 (if sz < endWrite then sz else endWrite) m
    = blit m sz (unat posOut0) (symbol_bytes decoder c)"
proof
  fix i :: size_t
  show "copy_mem (symbol decoder ! unat c) posOut0 posOut0 (if sz < endWrite then sz else endWrite) m i
    = blit m sz (unat posOut0) (symbol_bytes decoder c) i"
    using e by (auto simp: copy_mem_def blit_def symbol_bytes_def word_less_nat_alt word_le_nat_alt)
qed

lemma clamp_unat:
  fixes endWrite sz :: size_t
  shows "unat (if sz < endWrite then sz else endWrite) = min (unat endWrite) (unat sz)"
  by (auto simp: word_less_nat_alt)

lemma fsst_body_symbol:
  fixes c :: byte
  assumes c: "strIn ! posIn s = c" "c \<noteq> 255"
    and l8: "unat (len decoder ! unat c) \<le> 8"
    and nov: "unat (posOut s) + unat (len decoder ! unat c) < 2 ^ 64"
  shows "fsst_body decoder strIn sz s =
    Inr (s\<lparr>posIn := posIn s + 1, loads := loads s @ [posIn s],
            posOut := posOut s + ucast (len decoder ! unat c),
            strOut := blit (strOut s) sz (unat (posOut s)) (symbol_bytes decoder c),
            stores := stores s @ blit_log sz (unat (posOut s)) (unat (len decoder ! unat c))\<rparr>)"
proof -
  define endWrite where "endWrite = posOut s + ucast (len decoder ! unat c)"
  define endWrite' where "endWrite' = (if sz < endWrite then sz else endWrite)"
  have e: "unat endWrite = unat (posOut s) + unat (len decoder ! unat c)"
    using nov unat_add_lem [of "posOut s" "ucast (len decoder ! unat c) :: size_t"]
    by (simp add: endWrite_def)
  have e': "unat endWrite' = min (unat endWrite) (unat sz)"
    unfolding endWrite'_def by (rule clamp_unat)
  have "unat endWrite' \<le> unat (posOut s) + 8"
    using e e' l8 by simp
  then have "copy_loop decoder (unat c) (posOut s) endWrite' (posOut s)
       (s\<lparr>posIn := posIn s + 1, loads := loads s @ [posIn s], posOut := endWrite\<rparr>) =
     Inr (s\<lparr>posIn := posIn s + 1, loads := loads s @ [posIn s], posOut := endWrite,
             strOut := copy_mem (symbol decoder ! unat c) (posOut s) (posOut s) endWrite' (strOut s),
             stores := stores s @ map of_nat [unat (posOut s)..<unat endWrite']\<rparr>)"
    by (simp add: copy_loop_result)
  moreover have "copy_mem (symbol decoder ! unat c) (posOut s) (posOut s) endWrite' (strOut s)
      = blit (strOut s) sz (unat (posOut s)) (symbol_bytes decoder c)"
    unfolding endWrite'_def using e by (rule copy_mem_blit)
  moreover have "map of_nat [unat (posOut s)..<unat endWrite']
      = blit_log sz (unat (posOut s)) (unat (len decoder ! unat c))"
    by (simp add: blit_log_def e e')
  moreover have "fsst_body decoder strIn sz s =
      copy_loop decoder (unat c) (posOut s) endWrite' (posOut s)
       (s\<lparr>posIn := posIn s + 1, loads := loads s @ [posIn s], posOut := endWrite\<rparr>)"
    using c by (simp add: fsst_body_def Let_def byte_code_less_ESC endWrite_def endWrite'_def)
  ultimately show ?thesis
    by (simp only: endWrite_def)
qed

lemma blit_single:
  fixes p sz :: size_t
  shows "blit m sz (unat p) [b] = (if p < sz then m(p := b) else m)"
  by (auto simp: blit_def fun_eq_iff word_less_nat_alt word_unat_eq_iff)

lemma blit_log_single:
  fixes p sz :: size_t
  shows "blit_log sz (unat p) (Suc 0) = (if p < sz then [p] else [])"
  by (auto simp: blit_log_def word_less_nat_alt min_def upt_conv_Cons)

lemma fsst_body_escape:
  assumes c: "strIn ! posIn s = 255" and more: "Suc (posIn s) < length strIn"
  shows "fsst_body decoder strIn sz s =
    Inr (s\<lparr>posIn := posIn s + 2,
            loads := loads s @ (if posOut s < sz then [posIn s, posIn s + 1] else [posIn s]),
            posOut := posOut s + 1,
            strOut := blit (strOut s) sz (unat (posOut s)) [strIn ! (posIn s + 1)],
            stores := stores s @ blit_log sz (unat (posOut s)) 1\<rparr>)"
  using c more
  by (simp add: fsst_body_def Let_def FSST_ESC_def blit_single blit_log_single store_def)

lemma fsst_loop_result:
  assumes ok: "decoder_ok decoder"
    and le: "posIn s \<le> length strIn"
    and wf: "well_formed (drop (posIn s) strIn)"
    and nov: "unat (posOut s) + logical_length decoder (drop (posIn s) strIn) < 2 ^ 64"
  shows "\<exists>s'. fsst_loop decoder strIn sz s = Inr s' \<and> posIn s' = length strIn \<and>
           unat (posOut s') = unat (posOut s) + logical_length decoder (drop (posIn s) strIn) \<and>
           strOut s' = blit (strOut s) sz (unat (posOut s)) (expand decoder (drop (posIn s) strIn)) \<and>
           stores s' = stores s @ blit_log sz (unat (posOut s))
                                    (logical_length decoder (drop (posIn s) strIn))"
  using ok le wf nov
proof (induction decoder strIn sz s rule: fsst_loop.induct)
  case (1 decoder strIn sz s)
  note ok = "1.prems"(1)
  show ?case
  proof (cases "posIn s < length strIn")
    case False
    with "1.prems" have "drop (posIn s) strIn = []" and "posIn s = length strIn"
      by simp_all
    with False show ?thesis
      using fsst_loop.simps [of decoder strIn sz s] by simp
  next
    case True
    define c where "c = strIn ! posIn s"
    define rest where "rest = drop (Suc (posIn s)) strIn"
    have dr: "drop (posIn s) strIn = c # rest"
      using True by (simp add: c_def rest_def Cons_nth_drop_Suc)
    show ?thesis
    proof (cases "c = 255")
      case False
      define n where "n = unat (len decoder ! unat c)"
      define s1 where "s1 = s\<lparr>posIn := posIn s + 1, loads := loads s @ [posIn s],
            posOut := posOut s + ucast (len decoder ! unat c),
            strOut := blit (strOut s) sz (unat (posOut s)) (symbol_bytes decoder c),
            stores := stores s @ blit_log sz (unat (posOut s)) n\<rparr>"
      have L: "logical_length decoder (c # rest) = n + logical_length decoder rest"
        and E: "expand decoder (c # rest) = symbol_bytes decoder c @ expand decoder rest"
        and W: "well_formed rest"
        using False "1.prems"(3) dr by (simp_all add: n_def)
      have n8: "n \<le> 8"
        unfolding n_def using ok False by (rule decoder_ok_len)
      have nov1: "unat (posOut s) + n < 2 ^ 64"
        using "1.prems"(4) dr L by simp
      have body: "fsst_body decoder strIn sz s = Inr s1"
        unfolding s1_def n_def
        using c_def [symmetric] False n8 nov1 unfolding n_def by (rule fsst_body_symbol)
      have p1: "unat (posOut s1) = unat (posOut s) + n"
        using nov1 unat_add_lem [of "posOut s" "ucast (len decoder ! unat c) :: size_t"]
        by (simp add: s1_def n_def)
      have "\<exists>s'. fsst_loop decoder strIn sz s1 = Inr s' \<and> posIn s' = length strIn \<and>
           unat (posOut s') = unat (posOut s1) + logical_length decoder (drop (posIn s1) strIn) \<and>
           strOut s' = blit (strOut s1) sz (unat (posOut s1)) (expand decoder (drop (posIn s1) strIn)) \<and>
           stores s' = stores s1 @ blit_log sz (unat (posOut s1))
                                    (logical_length decoder (drop (posIn s1) strIn))"
      proof (rule "1.IH" [OF True body ok])
        show "posIn s1 \<le> length strIn" using True by (simp add: s1_def)
        show "well_formed (drop (posIn s1) strIn)" using W by (simp add: s1_def rest_def)
        show "unat (posOut s1) + logical_length decoder (drop (posIn s1) strIn) < 2 ^ 64"
          using "1.prems"(4) dr L p1 by (simp add: s1_def rest_def)
      qed
      then obtain s' where s': "fsst_loop decoder strIn sz s1 = Inr s'" "posIn s' = length strIn"
          "unat (posOut s') = unat (posOut s1) + logical_length decoder rest"
          "strOut s' = blit (strOut s1) sz (unat (posOut s1)) (expand decoder rest)"
          "stores s' = stores s1 @ blit_log sz (unat (posOut s1)) (logical_length decoder rest)"
        by (auto simp: s1_def rest_def)
      have "fsst_loop decoder strIn sz s = Inr s'"
        using True body s'(1) fsst_loop.simps [of decoder strIn sz s] by simp
      moreover have "strOut s' = blit (strOut s) sz (unat (posOut s)) (expand decoder (c # rest))"
        using s'(4) p1 blit_append [of "strOut s" sz "unat (posOut s)" "symbol_bytes decoder c" "expand decoder rest"]
        by (simp add: E s1_def n_def del: expand.simps)
      moreover have "stores s' = stores s @ blit_log sz (unat (posOut s)) (logical_length decoder (c # rest))"
        using s'(5) p1 blit_log_add [of sz "unat (posOut s)" n "logical_length decoder rest"]
        by (simp add: L s1_def del: logical_length.simps)
      ultimately show ?thesis
        using s'(2,3) p1 by (simp add: dr L del: logical_length.simps expand.simps)
    next
      case c255: True
      with "1.prems"(3) dr obtain b rest' where rest: "rest = b # rest'"
        by (cases rest) auto
      have more: "Suc (posIn s) < length strIn"
        using rest unfolding rest_def by (metis drop_eq_Nil list.distinct(1) not_le)
      have b: "b = strIn ! (posIn s + 1)" and rest': "rest' = drop (posIn s + 2) strIn"
        using rest more unfolding rest_def
        by (simp_all add: Cons_nth_drop_Suc [symmetric])
      define s1 where "s1 = s\<lparr>posIn := posIn s + 2,
            loads := loads s @ (if posOut s < sz then [posIn s, posIn s + 1] else [posIn s]),
            posOut := posOut s + 1,
            strOut := blit (strOut s) sz (unat (posOut s)) [strIn ! (posIn s + 1)],
            stores := stores s @ blit_log sz (unat (posOut s)) 1\<rparr>"
      have L: "logical_length decoder (c # rest) = 1 + logical_length decoder rest'"
        and E: "expand decoder (c # rest) = [b] @ expand decoder rest'"
        and W: "well_formed rest'"
        using c255 "1.prems"(3) dr rest by simp_all
      have nov1: "unat (posOut s) + 1 < 2 ^ 64"
        using "1.prems"(4) dr L by simp
      have body: "fsst_body decoder strIn sz s = Inr s1"
        unfolding s1_def using c255 more unfolding c_def by (rule fsst_body_escape)
      have p1: "unat (posOut s1) = unat (posOut s) + 1"
        using nov1 unat_add_lem [of "posOut s" "1 :: size_t"]
        by (simp add: s1_def)
      have "\<exists>s'. fsst_loop decoder strIn sz s1 = Inr s' \<and> posIn s' = length strIn \<and>
           unat (posOut s') = unat (posOut s1) + logical_length decoder (drop (posIn s1) strIn) \<and>
           strOut s' = blit (strOut s1) sz (unat (posOut s1)) (expand decoder (drop (posIn s1) strIn)) \<and>
           stores s' = stores s1 @ blit_log sz (unat (posOut s1))
                                    (logical_length decoder (drop (posIn s1) strIn))"
      proof (rule "1.IH" [OF True body ok])
        show "posIn s1 \<le> length strIn" using more by (simp add: s1_def)
        show "well_formed (drop (posIn s1) strIn)" using W by (simp add: s1_def rest')
        show "unat (posOut s1) + logical_length decoder (drop (posIn s1) strIn) < 2 ^ 64"
          using "1.prems"(4) dr L p1 by (simp add: s1_def rest')
      qed
      then obtain s' where s': "fsst_loop decoder strIn sz s1 = Inr s'" "posIn s' = length strIn"
          "unat (posOut s') = unat (posOut s1) + logical_length decoder rest'"
          "strOut s' = blit (strOut s1) sz (unat (posOut s1)) (expand decoder rest')"
          "stores s' = stores s1 @ blit_log sz (unat (posOut s1)) (logical_length decoder rest')"
        by (auto simp: s1_def rest')
      have "fsst_loop decoder strIn sz s = Inr s'"
        using True body s'(1) fsst_loop.simps [of decoder strIn sz s] by simp
      moreover have "strOut s' = blit (strOut s) sz (unat (posOut s)) (expand decoder (c # rest))"
        using s'(4) p1 blit_append [of "strOut s" sz "unat (posOut s)" "[b]" "expand decoder rest'"]
        by (simp add: E s1_def b del: expand.simps)
      moreover have "stores s' = stores s @ blit_log sz (unat (posOut s)) (logical_length decoder (c # rest))"
        using s'(5) p1 blit_log_add [of sz "unat (posOut s)" 1 "logical_length decoder rest'"]
        by (simp add: L s1_def del: logical_length.simps)
      ultimately show ?thesis
        using s'(2,3) p1 by (simp add: dr L del: logical_length.simps expand.simps)
    qed
  qed
qed

lemma fsst_decompress_result:
  assumes ok: "decoder_ok decoder"
    and wf: "well_formed strIn"
    and nov: "logical_length decoder strIn < 2 ^ 64"
  shows "\<exists>s'. fsst_decompress decoder strIn sz output = Inr s' \<and>
           posIn s' = length strIn \<and>
           unat (posOut s') = logical_length decoder strIn \<and>
           strOut s' =
             (if unat sz \<le> logical_length decoder strIn \<and> zeroTerminated decoder AND 1 \<noteq> 0
              then (blit output sz 0 (expand decoder strIn))(sz - 1 := 0)
              else blit output sz 0 (expand decoder strIn)) \<and>
           stores s' = blit_log sz 0 (logical_length decoder strIn) @
             (if unat sz \<le> logical_length decoder strIn \<and> zeroTerminated decoder AND 1 \<noteq> 0
              then [sz - 1] else [])"
proof -
  from fsst_loop_result [of decoder "fsst_init output" strIn sz] ok wf nov
  obtain s where s: "fsst_loop decoder strIn sz (fsst_init output) = Inr s"
      "posIn s = length strIn"
      "unat (posOut s) = logical_length decoder strIn"
      "strOut s = blit output sz 0 (expand decoder strIn)"
      "stores s = blit_log sz 0 (logical_length decoder strIn)"
    by (auto simp: fsst_init_def)
  have "sz \<le> posOut s \<longleftrightarrow> unat sz \<le> logical_length decoder strIn"
    using s(3) by (simp add: word_le_nat_alt)
  with s show ?thesis
    by (simp add: fsst_decompress_def)
qed

lemma unat_of_nat_below:
  fixes sz :: size_t
  assumes "i < unat sz"
  shows "unat (of_nat i :: size_t) = i"
proof -
  have "unat sz < 2 ^ LENGTH(64)" by (rule unsigned_less)
  with assms have "i < 2 ^ LENGTH(64)" by simp
  then show ?thesis by (simp add: unat_of_nat take_bit_nat_eq_self)
qed

lemma blit_at:
  fixes sz :: size_t
  assumes "i < unat sz" and "i < length bs"
  shows "blit m sz 0 bs (of_nat i) = bs ! i"
  using assms unat_of_nat_below [OF assms(1)]
  by (simp add: blit_def word_less_nat_alt)

lemma blit_outside:
  "min (length bs) (unat sz) \<le> unat i \<Longrightarrow> blit m sz 0 bs i = m i"
  by (auto simp: blit_def word_less_nat_alt)

lemma unat_pred:
  fixes sz :: size_t
  assumes "0 < unat sz"
  shows "unat (sz - 1) = unat sz - 1"
  using assms by unat_arith

lemma of_nat_eq_pred:
  fixes sz :: size_t
  assumes "i < unat sz"
  shows "(of_nat i = sz - 1) \<longleftrightarrow> i = unat sz - 1"
proof -
  have "unat (sz - 1) = unat sz - 1"
    using assms by (intro unat_pred) simp
  with unat_of_nat_below [OF assms] show ?thesis
    by (auto simp: word_unat_eq_iff)
qed

lemma escape_pair_loop:
  assumes "1 \<le> sz"
  shows "fsst_loop decoder [255, b] sz (fsst_init output) =
    Inr \<lparr>posIn = 2, posOut = 1, strOut = output(0 := b), loads = [0, 1], stores = [0]\<rparr>"
proof -
  define s1 where
    "s1 = \<lparr>posIn = 2, posOut = 1, strOut = output(0 := b), loads = [0, 1], stores = [0]\<rparr>"
  have pos: "0 < sz"
    using assms by unat_arith
  have body: "fsst_body decoder [255, b] sz (fsst_init output) = Inr s1"
    using pos by (simp add: fsst_body_def Let_def FSST_ESC_def fsst_init_def store_def s1_def)
  have "posIn (fsst_init output) < length [255, b]"
    by (simp add: fsst_init_def)
  then have "fsst_loop decoder [255, b] sz (fsst_init output) = fsst_loop decoder [255, b] sz s1"
    using fsst_loop.simps [of decoder "[255, b]" sz "fsst_init output"] body by simp
  also have "\<dots> = Inr s1"
    using fsst_loop.simps [of decoder "[255, b]" sz s1] by (simp add: s1_def)
  finally show ?thesis
    by (simp only: s1_def)
qed

subsection \<open>Facts about the example\<close>

lemma example_table_ok: "decoder_ok example_table"
  by code_simp

lemma example_table_z_ok: "decoder_ok example_table_z"
  by code_simp

lemma example_well_formed: "well_formed [5, 6, 255, 33]"
  by simp

lemma example_length: "logical_length example_table [5, 6, 255, 33] = 6"
  by code_simp

lemma example_length_z: "logical_length example_table_z [5, 6, 255, 33] = 6"
  by code_simp

lemma example_expand_z: "expand example_table_z [5, 6, 255, 33] = [104, 101, 108, 108, 111, 33]"
  by code_simp

lemma example_flag_z: "zeroTerminated example_table_z AND 1 \<noteq> 0"
  by code_simp

lemma example_fits: "logical_length example_table [5, 6, 255, 33] < 2 ^ 64"
  unfolding example_length by simp

lemma example_fits_z: "logical_length example_table_z [5, 6, 255, 33] < 2 ^ 64"
  unfolding example_length_z by simp

subsection \<open>The clamped copy\<close>

lemma fold_store_result:
  fixes p :: size_t
  assumes "unat p + n \<le> 2 ^ 64"
  shows "fold (\<lambda>j. store (p + of_nat j) (f j)) [0..<n] s =
    s\<lparr>strOut := (\<lambda>i. if unat p \<le> unat i \<and> unat i < unat p + n then f (unat i - unat p)
                      else strOut s i),
       stores := stores s @ map of_nat [unat p..<unat p + n]\<rparr>"
  using assms
proof (induction n)
  case 0
  have "(\<lambda>i. if unat p \<le> unat i \<and> unat i < unat p + 0 then f (unat i - unat p)
                      else strOut s i) = strOut s"
    by (auto simp: fun_eq_iff)
  then show ?case by simp
next
  case (Suc n)
  define M where "M = (\<lambda>i. if unat p \<le> unat i \<and> unat i < unat p + n then f (unat i - unat p)
                      else strOut s i)"
  define S where "S = stores s @ map of_nat [unat p..<unat p + n]"
  have n: "n < 2 ^ 64" and pn: "unat p + n < 2 ^ 64"
    using Suc.prems by simp_all
  have un: "unat (of_nat n :: size_t) = n"
    using n by (simp add: unat_of_nat take_bit_nat_eq_self)
  have idx: "unat (p + of_nat n) = unat p + n"
    using pn un unat_add_lem [of p "of_nat n :: size_t"] by simp
  have mem: "M(p + of_nat n := f n)
      = (\<lambda>i. if unat p \<le> unat i \<and> unat i < unat p + Suc n then f (unat i - unat p)
                      else strOut s i)"
    unfolding M_def using idx by (auto simp: fun_eq_iff word_unat_eq_iff)
  have log: "S @ [p + of_nat n] = stores s @ map of_nat [unat p..<unat p + Suc n]"
    unfolding S_def by simp
  have ih: "fold (\<lambda>j. store (p + of_nat j) (f j)) [0..<n] s = s\<lparr>strOut := M, stores := S\<rparr>"
    unfolding M_def S_def using Suc.IH Suc.prems by simp
  have "fold (\<lambda>j. store (p + of_nat j) (f j)) [0..<Suc n] s =
      store (p + of_nat n) (f n) (fold (\<lambda>j. store (p + of_nat j) (f j)) [0..<n] s)"
    by simp
  also have "\<dots> = s\<lparr>strOut := M(p + of_nat n := f n), stores := S @ [p + of_nat n]\<rparr>"
    unfolding ih by (simp add: store_def)
  finally show ?case
    by (simp only: mem log)
qed

lemma clamped_copy_result:
  fixes c :: byte
  assumes nov: "unat (posOut s) + unat (len decoder ! unat c) < 2 ^ 64"
  shows "clamped_copy decoder (unat c) sz s =
    s\<lparr>strOut := blit (strOut s) sz (unat (posOut s)) (symbol_bytes decoder c),
       stores := stores s @ blit_log sz (unat (posOut s)) (unat (len decoder ! unat c))\<rparr>"
proof -
  define n where "n = min (unat (len decoder ! unat c)) (unat sz - unat (posOut s))"
  have "unat (posOut s) + n \<le> 2 ^ 64"
    using nov by (simp add: n_def)
  then have "fold (\<lambda>j. store (posOut s + of_nat j) (symbol_byte (symbol decoder ! unat c) j)) [0..<n] s =
    s\<lparr>strOut := (\<lambda>i. if unat (posOut s) \<le> unat i \<and> unat i < unat (posOut s) + n
                      then symbol_byte (symbol decoder ! unat c) (unat i - unat (posOut s))
                      else strOut s i),
       stores := stores s @ map of_nat [unat (posOut s)..<unat (posOut s) + n]\<rparr>"
    by (rule fold_store_result)
  moreover have "(\<lambda>i. if unat (posOut s) \<le> unat i \<and> unat i < unat (posOut s) + n
                      then symbol_byte (symbol decoder ! unat c) (unat i - unat (posOut s))
                      else strOut s i)
      = blit (strOut s) sz (unat (posOut s)) (symbol_bytes decoder c)"
    by (auto simp: blit_def symbol_bytes_def n_def fun_eq_iff word_less_nat_alt)
  moreover have "unat (posOut s) + n =
      max (unat (posOut s)) (min (unat (posOut s) + unat (len decoder ! unat c)) (unat sz))"
    by (simp add: n_def)
  then have "map of_nat [unat (posOut s)..<unat (posOut s) + n]
      = blit_log sz (unat (posOut s)) (unat (len decoder ! unat c))"
    by (auto simp: blit_log_def max_def)
  ultimately show ?thesis
    by (simp add: clamped_copy_def n_def)
qed

lemma copy_loop_clamped:
  fixes c :: byte
  assumes l8: "unat (len decoder ! unat c) \<le> 8"
    and nov: "unat (posOut s) + unat (len decoder ! unat c) < 2 ^ 64"
  shows "copy_loop decoder (unat c) (posOut s)
           (if sz < posOut s + ucast (len decoder ! unat c) then sz
            else posOut s + ucast (len decoder ! unat c))
           (posOut s) (s\<lparr>posOut := posOut s + ucast (len decoder ! unat c)\<rparr>) =
         Inr ((clamped_copy decoder (unat c) sz s)
                \<lparr>posOut := posOut s + ucast (len decoder ! unat c)\<rparr>)"
proof -
  define endWrite where "endWrite = posOut s + ucast (len decoder ! unat c)"
  define endWrite' where "endWrite' = (if sz < endWrite then sz else endWrite)"
  have e: "unat endWrite = unat (posOut s) + unat (len decoder ! unat c)"
    using nov unat_add_lem [of "posOut s" "ucast (len decoder ! unat c) :: size_t"]
    by (simp add: endWrite_def)
  have e': "unat endWrite' = min (unat endWrite) (unat sz)"
    unfolding endWrite'_def by (rule clamp_unat)
  have "unat endWrite' \<le> unat (posOut s) + 8"
    using e e' l8 by simp
  then have "copy_loop decoder (unat c) (posOut s) endWrite' (posOut s) (s\<lparr>posOut := endWrite\<rparr>) =
     Inr (s\<lparr>posOut := endWrite,
             strOut := copy_mem (symbol decoder ! unat c) (posOut s) (posOut s) endWrite' (strOut s),
             stores := stores s @ map of_nat [unat (posOut s)..<unat endWrite']\<rparr>)"
    by (simp add: copy_loop_result)
  moreover have "copy_mem (symbol decoder ! unat c) (posOut s) (posOut s) endWrite' (strOut s)
      = blit (strOut s) sz (unat (posOut s)) (symbol_bytes decoder c)"
    unfolding endWrite'_def using e by (rule copy_mem_blit)
  moreover have "map of_nat [unat (posOut s)..<unat endWrite']
      = blit_log sz (unat (posOut s)) (unat (len decoder ! unat c))"
    by (simp add: blit_log_def e e')
  ultimately show ?thesis
    unfolding endWrite'_def endWrite_def clamped_copy_result [OF nov]
    by simp
qed

lemma fsst_body_clamped_eq:
  assumes "strIn ! posIn s \<noteq> 255 \<Longrightarrow>
      unat (len decoder ! unat (strIn ! posIn s)) \<le> 8 \<and>
      unat (posOut s) + unat (len decoder ! unat (strIn ! posIn s)) < 2 ^ 64"
  shows "fsst_body_clamped decoder strIn sz s = fsst_body decoder strIn sz s"
proof (cases "strIn ! posIn s = 255")
  case True
  then show ?thesis
    by (simp add: fsst_body_clamped_def fsst_body_def Let_def FSST_ESC_def)
next
  case False
  define c where "c = strIn ! posIn s"
  define s1 where "s1 = s\<lparr>posIn := posIn s + 1, loads := loads s @ [posIn s]\<rparr>"
  from assms False have "unat (len decoder ! unat c) \<le> 8"
    and "unat (posOut s1) + unat (len decoder ! unat c) < 2 ^ 64"
    by (simp_all add: c_def s1_def)
  note cl = copy_loop_clamped [OF this, of sz]
  show ?thesis
  proof (cases "sz < posOut s + ucast (len decoder ! unat (strIn ! posIn s))")
    case True
    with cl False show ?thesis
      by (simp add: fsst_body_clamped_def fsst_body_def Let_def byte_code_less_ESC c_def s1_def)
  next
    case nlt: False
    with cl False show ?thesis
      by (simp add: fsst_body_clamped_def fsst_body_def Let_def byte_code_less_ESC c_def s1_def)
  qed
qed

lemma run_inv_symbol:
  assumes ok: "decoder_ok decoder" and inv: "run_inv decoder strIn s"
    and lt: "posIn s < length strIn" and c: "strIn ! posIn s \<noteq> 255"
  shows "unat (len decoder ! unat (strIn ! posIn s)) \<le> 8 \<and>
         unat (posOut s) + unat (len decoder ! unat (strIn ! posIn s)) < 2 ^ 64"
proof -
  have dr: "drop (posIn s) strIn = strIn ! posIn s # drop (Suc (posIn s)) strIn"
    using lt by (simp add: Cons_nth_drop_Suc)
  have "unat (posOut s) + logical_length decoder (strIn ! posIn s # drop (Suc (posIn s)) strIn) < 2 ^ 64"
    using inv unfolding run_inv_def dr by simp
  with c decoder_ok_len [OF ok c] show ?thesis by simp
qed

lemma fsst_body_step:
  assumes ok: "decoder_ok decoder" and inv: "run_inv decoder strIn s"
    and lt: "posIn s < length strIn"
  shows "\<exists>s1. fsst_body decoder strIn sz s = Inr s1 \<and> run_inv decoder strIn s1 \<and>
           unat (posOut s) \<le> unat (posOut s1)"
proof -
  define c where "c = strIn ! posIn s"
  define rest where "rest = drop (Suc (posIn s)) strIn"
  have dr: "drop (posIn s) strIn = c # rest"
    using lt by (simp add: c_def rest_def Cons_nth_drop_Suc)
  from inv have wf: "well_formed (c # rest)"
    and nov: "unat (posOut s) + logical_length decoder (c # rest) < 2 ^ 64"
    unfolding run_inv_def dr by simp_all
  show ?thesis
  proof (cases "c = 255")
    case False
    define n where "n = unat (len decoder ! unat c)"
    have L: "logical_length decoder (c # rest) = n + logical_length decoder rest"
      and W: "well_formed rest"
      using False wf by (simp_all add: n_def)
    have n8: "n \<le> 8"
      unfolding n_def using ok False by (rule decoder_ok_len)
    have nov1: "unat (posOut s) + n < 2 ^ 64"
      using nov L by simp
    note body = fsst_body_symbol [OF c_def [symmetric] False n8 [unfolded n_def] nov1 [unfolded n_def],
        of sz]
    have p1: "unat (posOut s + ucast (len decoder ! unat c)) = unat (posOut s) + n"
      using nov1 unat_add_lem [of "posOut s" "ucast (len decoder ! unat c) :: size_t"]
      by (simp add: n_def)
    show ?thesis
      unfolding body run_inv_def using lt W nov L p1
      by (simp add: rest_def del: logical_length.simps)
  next
    case True
    with wf obtain b rest' where rest: "rest = b # rest'"
      by (cases rest) auto
    have more: "Suc (posIn s) < length strIn"
      using rest unfolding rest_def by (metis drop_eq_Nil list.distinct(1) not_le)
    have rest': "rest' = drop (posIn s + 2) strIn"
      using rest more unfolding rest_def
      by (simp add: Cons_nth_drop_Suc [symmetric])
    have L: "logical_length decoder (c # rest) = 1 + logical_length decoder rest'"
      and W: "well_formed rest'"
      using True wf rest by simp_all
    have nov1: "unat (posOut s) + 1 < 2 ^ 64"
      using nov L by simp
    note body = fsst_body_escape [OF True [unfolded c_def] more, of decoder sz]
    have p1: "unat (posOut s + 1) = unat (posOut s) + 1"
      using nov1 unat_add_lem [of "posOut s" "1 :: size_t"] by simp
    show ?thesis
      unfolding body run_inv_def using more W nov L p1
      by (simp add: rest' del: logical_length.simps)
  qed
qed

lemma fsst_loop_clamped_eq:
  assumes "decoder_ok decoder" and "run_inv decoder strIn s"
  shows "fsst_loop_clamped decoder strIn sz s = fsst_loop decoder strIn sz s"
  using assms
proof (induction decoder strIn sz s rule: fsst_loop.induct)
  case (1 decoder strIn sz s)
  show ?case
  proof (cases "posIn s < length strIn")
    case False
    then show ?thesis
      using fsst_loop.simps [of decoder strIn sz s]
        fsst_loop_clamped.simps [of decoder strIn sz s] by simp
  next
    case True
    from fsst_body_step [OF "1.prems" True, of sz]
    obtain s1 where s1: "fsst_body decoder strIn sz s = Inr s1" "run_inv decoder strIn s1"
      by blast
    have "fsst_body_clamped decoder strIn sz s = fsst_body decoder strIn sz s"
      using run_inv_symbol [OF "1.prems" True] by (intro fsst_body_clamped_eq) simp
    with s1 True "1.IH" [OF True s1(1) "1.prems"(1) s1(2)] show ?thesis
      using fsst_loop.simps [of decoder strIn sz s]
        fsst_loop_clamped.simps [of decoder strIn sz s] by simp
  qed
qed

lemma run_inv_init:
  assumes "well_formed strIn" and "logical_length decoder strIn < 2 ^ 64"
  shows "run_inv decoder strIn (fsst_init output)"
  using assms by (simp add: run_inv_def fsst_init_def)

subsection \<open>The sequence of states\<close>

lemma fsst_states_unfold:
  "fsst_states decoder strIn sz s =
     (if posIn s < length strIn then
        (case fsst_body decoder strIn sz s of
           Inl e \<Rightarrow> [s]
         | Inr s' \<Rightarrow> s # fsst_states decoder strIn sz s')
      else [s])"
  by (subst fsst_states.simps) (simp split: sum.splits)

lemma fsst_states_posIn_ge:
  assumes "a \<in> set (fsst_states decoder strIn sz s)"
  shows "posIn s \<le> posIn a"
  using assms
proof (induction decoder strIn sz s rule: fsst_states.induct)
  case (1 decoder strIn sz s)
  show ?case
  proof (cases "posIn s < length strIn")
    case False
    with "1.prems" show ?thesis
      by (simp add: fsst_states_unfold [of decoder strIn sz s])
  next
    case True
    show ?thesis
    proof (cases "fsst_body decoder strIn sz s")
      case (Inl e)
      with True "1.prems" show ?thesis
        by (simp add: fsst_states_unfold [of decoder strIn sz s])
    next
      case (Inr s1)
      with True "1.prems" have "a = s \<or> a \<in> set (fsst_states decoder strIn sz s1)"
        by (simp add: fsst_states_unfold [of decoder strIn sz s])
      with "1.IH" [OF True Inr] fsst_body_posIn [OF Inr] show ?thesis
        by auto
    qed
  qed
qed

lemma fsst_states_posIn_sorted:
  "sorted_wrt (\<lambda>a b. posIn a < posIn b) (fsst_states decoder strIn sz s)"
proof (induction decoder strIn sz s rule: fsst_states.induct)
  case (1 decoder strIn sz s)
  show ?case
  proof (cases "posIn s < length strIn")
    case False
    then show ?thesis
      by (simp add: fsst_states_unfold [of decoder strIn sz s])
  next
    case True
    show ?thesis
    proof (cases "fsst_body decoder strIn sz s")
      case (Inl e)
      with True show ?thesis
        by (simp add: fsst_states_unfold [of decoder strIn sz s])
    next
      case (Inr s1)
      have "posIn s < posIn a" if "a \<in> set (fsst_states decoder strIn sz s1)" for a
        using fsst_states_posIn_ge [OF that] fsst_body_posIn [OF Inr] by simp
      with True Inr "1.IH" [OF True Inr] show ?thesis
        by (simp add: fsst_states_unfold [of decoder strIn sz s])
    qed
  qed
qed

lemma fsst_states_not_Nil: "fsst_states decoder strIn sz s \<noteq> []"
  by (subst fsst_states.simps) simp

lemma fsst_states_continue:
  assumes "a \<in> set (butlast (fsst_states decoder strIn sz s))"
  shows "posIn a < length strIn"
  using assms
proof (induction decoder strIn sz s rule: fsst_states.induct)
  case (1 decoder strIn sz s)
  show ?case
  proof (cases "posIn s < length strIn")
    case False
    with "1.prems" show ?thesis
      by (simp add: fsst_states_unfold [of decoder strIn sz s])
  next
    case True
    show ?thesis
    proof (cases "fsst_body decoder strIn sz s")
      case (Inl e)
      with True "1.prems" show ?thesis
        by (simp add: fsst_states_unfold [of decoder strIn sz s])
    next
      case (Inr s1)
      with True "1.prems" have "a = s \<or> a \<in> set (butlast (fsst_states decoder strIn sz s1))"
        by (simp add: fsst_states_unfold [of decoder strIn sz s] fsst_states_not_Nil)
      with True "1.IH" [OF True Inr] show ?thesis by auto
    qed
  qed
qed

lemma fsst_loop_last_state:
  assumes "fsst_loop decoder strIn sz s = Inr s'"
  shows "s' = last (fsst_states decoder strIn sz s) \<and> length strIn \<le> posIn s'"
  using assms
proof (induction decoder strIn sz s rule: fsst_loop.induct)
  case (1 decoder strIn sz s)
  show ?case
  proof (cases "posIn s < length strIn")
    case False
    with "1.prems" have "s' = s"
      using fsst_loop.simps [of decoder strIn sz s] by simp
    with False show ?thesis
      by (simp add: fsst_states_unfold [of decoder strIn sz s])
  next
    case True
    with "1.prems" obtain s1 where b: "fsst_body decoder strIn sz s = Inr s1"
      and l: "fsst_loop decoder strIn sz s1 = Inr s'"
      using fsst_loop.simps [of decoder strIn sz s]
      by (cases "fsst_body decoder strIn sz s") simp_all
    from "1.IH" [OF True b l] have e1: "s' = last (fsst_states decoder strIn sz s1)"
      and e2: "length strIn \<le> posIn s'"
      by blast+
    have "last (fsst_states decoder strIn sz s) = last (fsst_states decoder strIn sz s1)"
      using True b by (simp add: fsst_states_unfold [of decoder strIn sz s] fsst_states_not_Nil)
    with e1 e2 show ?thesis by simp
  qed
qed

lemma fsst_body_loads:
  assumes b: "fsst_body decoder strIn sz s = Inr s1" and lt: "posIn s < length strIn"
    and inv: "loads_inv strIn s"
  shows "loads_inv strIn s1"
proof -
  have old: "k < posIn s" if "k \<in> set (loads s)" for k
    using inv that by (simp add: loads_inv_def)
  have old': "k < length strIn" if "k \<in> set (loads s)" for k
    using inv that by (simp add: loads_inv_def)
  have srt: "sorted_wrt (<) (loads s)"
    using inv by (simp add: loads_inv_def)
  have "(posIn s1 = posIn s + 1 \<and> loads s1 = loads s @ [posIn s])
      \<or> (posIn s1 = posIn s + 2 \<and> loads s1 = loads s @ [posIn s, posIn s + 1]
        \<and> posIn s + 1 < length strIn)
      \<or> (posIn s1 = posIn s + 2 \<and> loads s1 = loads s @ [posIn s])"
  proof (cases "(ucast (strIn ! posIn s) :: size_t) < FSST_ESC")
    case True
    define s2 where "s2 = s\<lparr>posIn := posIn s + 1, loads := loads s @ [posIn s],
      posOut := posOut s + ucast (len decoder ! unat (ucast (strIn ! posIn s) :: size_t))\<rparr>"
    from b True obtain e where "copy_loop decoder (unat (ucast (strIn ! posIn s) :: size_t)) (posOut s)
        e (posOut s) s2 = Inr s1"
      by (simp add: fsst_body_def Let_def s2_def)
    from copy_loop_locals [OF this] show ?thesis
      by (simp add: s2_def)
  next
    case False
    with b show ?thesis
      by (auto simp: fsst_body_def Let_def split: if_splits)
  qed
  then show ?thesis
  proof (elim disjE conjE)
    assume "posIn s1 = posIn s + 1" "loads s1 = loads s @ [posIn s]"
    with srt lt show ?thesis
      by (auto simp: loads_inv_def sorted_wrt_append dest: old old')
  next
    assume "posIn s1 = posIn s + 2" "loads s1 = loads s @ [posIn s, posIn s + 1]"
      "posIn s + 1 < length strIn"
    with srt lt show ?thesis
      by (auto simp: loads_inv_def sorted_wrt_append dest: old old')
  next
    assume "posIn s1 = posIn s + 2" "loads s1 = loads s @ [posIn s]"
    with srt lt show ?thesis
      by (auto simp: loads_inv_def sorted_wrt_append dest: old old')
  qed
qed

lemma fsst_loop_loads:
  assumes "fsst_loop decoder strIn sz s = Inr s'" and "loads_inv strIn s"
  shows "loads_inv strIn s'"
  using assms
proof (induction decoder strIn sz s rule: fsst_loop.induct)
  case (1 decoder strIn sz s)
  show ?case
  proof (cases "posIn s < length strIn")
    case False
    with "1.prems" show ?thesis
      using fsst_loop.simps [of decoder strIn sz s] by simp
  next
    case True
    with "1.prems" obtain s1 where b: "fsst_body decoder strIn sz s = Inr s1"
      and l: "fsst_loop decoder strIn sz s1 = Inr s'"
      using fsst_loop.simps [of decoder strIn sz s]
      by (cases "fsst_body decoder strIn sz s") simp_all
    from "1.IH" [OF True b l fsst_body_loads [OF b True "1.prems"(2)]] show ?thesis .
  qed
qed

lemma fsst_states_posOut_ge:
  assumes "decoder_ok decoder" and "run_inv decoder strIn s"
    and "a \<in> set (fsst_states decoder strIn sz s)"
  shows "posOut s \<le> posOut a"
  using assms
proof (induction decoder strIn sz s rule: fsst_states.induct)
  case (1 decoder strIn sz s)
  show ?case
  proof (cases "posIn s < length strIn")
    case False
    with "1.prems"(3) show ?thesis
      by (simp add: fsst_states_unfold [of decoder strIn sz s])
  next
    case True
    from fsst_body_step [OF "1.prems"(1,2) True, of sz]
    obtain s1 where b: "fsst_body decoder strIn sz s = Inr s1"
      and inv1: "run_inv decoder strIn s1" and le: "unat (posOut s) \<le> unat (posOut s1)"
      by blast
    from True b "1.prems"(3) have "a = s \<or> a \<in> set (fsst_states decoder strIn sz s1)"
      by (simp add: fsst_states_unfold [of decoder strIn sz s])
    then show ?thesis
    proof
      assume "a = s"
      then show ?thesis by simp
    next
      assume "a \<in> set (fsst_states decoder strIn sz s1)"
      from "1.IH" [OF True b "1.prems"(1) inv1 this] le show ?thesis
        by (simp add: word_le_nat_alt)
    qed
  qed
qed

lemma fsst_states_posOut_sorted:
  assumes "decoder_ok decoder" and "run_inv decoder strIn s"
  shows "sorted_wrt (\<lambda>a b. posOut a \<le> posOut b) (fsst_states decoder strIn sz s)"
  using assms
proof (induction decoder strIn sz s rule: fsst_states.induct)
  case (1 decoder strIn sz s)
  show ?case
  proof (cases "posIn s < length strIn")
    case False
    then show ?thesis
      by (simp add: fsst_states_unfold [of decoder strIn sz s])
  next
    case True
    from fsst_body_step [OF "1.prems" True, of sz]
    obtain s1 where b: "fsst_body decoder strIn sz s = Inr s1"
      and inv1: "run_inv decoder strIn s1" and le: "unat (posOut s) \<le> unat (posOut s1)"
      by blast
    have "posOut s \<le> posOut a" if "a \<in> set (fsst_states decoder strIn sz s1)" for a
      using fsst_states_posOut_ge [OF "1.prems"(1) inv1 that] le
      by (simp add: word_le_nat_alt)
    with True b "1.IH" [OF True b "1.prems"(1) inv1] show ?thesis
      by (simp add: fsst_states_unfold [of decoder strIn sz s])
  qed
qed

subsection \<open>Independence of the prior buffer contents\<close>

lemma same_writes_store:
  "same_writes s t \<Longrightarrow> same_writes (store i b s) (store i b t)"
  by (auto simp: same_writes_def store_def)

lemma copy_loop_same_writes:
  assumes "same_writes s t"
  shows "rel_sum (=) same_writes (copy_loop decoder code base endWrite posWrite s)
                                  (copy_loop decoder code base endWrite posWrite t)"
  using assms
proof (induction decoder code base endWrite posWrite s arbitrary: t rule: copy_loop.induct)
  case (1 decoder code base endWrite posWrite s)
  show ?case
  proof (cases "posWrite < endWrite")
    case False
    with "1.prems" show ?thesis
      by (simp add: copy_loop.simps [of decoder code base endWrite posWrite])
  next
    case True
    show ?thesis
    proof (cases "symbolPointer_load decoder code base posWrite")
      case (Inl e)
      with True show ?thesis
        by (simp add: copy_loop.simps [of decoder code base endWrite posWrite])
    next
      case (Inr b)
      from "1.IH" [OF True Inr same_writes_store [OF "1.prems"]] True Inr show ?thesis
        by (simp add: copy_loop.simps [of decoder code base endWrite posWrite])
    qed
  qed
qed

lemma same_writes_locals:
  "same_writes s t \<Longrightarrow>
     same_writes (s\<lparr>posIn := a, loads := l\<rparr>) (t\<lparr>posIn := a, loads := l\<rparr>)"
  "same_writes s t \<Longrightarrow> same_writes (s\<lparr>posOut := p\<rparr>) (t\<lparr>posOut := p\<rparr>)"
  "same_writes s t \<Longrightarrow> same_writes (s\<lparr>loads := l\<rparr>) (t\<lparr>loads := l\<rparr>)"
  "same_writes s t \<Longrightarrow>
     same_writes (s\<lparr>posIn := a, posOut := p\<rparr>) (t\<lparr>posIn := a, posOut := p\<rparr>)"
  by (auto simp: same_writes_def)

lemma fsst_body_same_writes:
  assumes st: "same_writes s t"
  shows "rel_sum (=) same_writes (fsst_body decoder strIn sz s) (fsst_body decoder strIn sz t)"
proof -
  from st have eq: "posIn t = posIn s" "posOut t = posOut s" "loads t = loads s"
    by (simp_all add: same_writes_def)
  define s1 where "s1 = s\<lparr>posIn := posIn s + 1, loads := loads s @ [posIn s]\<rparr>"
  define t1 where "t1 = t\<lparr>posIn := posIn s + 1, loads := loads s @ [posIn s]\<rparr>"
  have st1: "same_writes s1 t1"
    unfolding s1_def t1_def using st by (rule same_writes_locals)
  show ?thesis
  proof (cases "(ucast (strIn ! posIn s) :: size_t) < FSST_ESC")
    case True
    define e where "e = posOut s + ucast (len decoder ! unat (ucast (strIn ! posIn s) :: size_t))"
    have "same_writes (s1\<lparr>posOut := e\<rparr>) (t1\<lparr>posOut := e\<rparr>)"
      using st1 by (rule same_writes_locals)
    from copy_loop_same_writes [OF this]
    show ?thesis
      using True by (simp add: fsst_body_def Let_def eq s1_def t1_def e_def)
  next
    case False
    show ?thesis
    proof (cases "posOut s < sz \<and> posIn s + 1 < length strIn")
      case True
      have "same_writes (s1\<lparr>loads := loads s1 @ [posIn s1]\<rparr>) (t1\<lparr>loads := loads s1 @ [posIn s1]\<rparr>)"
        using st1 by (rule same_writes_locals)
      then have "same_writes
          (store (posOut s1) (strIn ! posIn s1) (s1\<lparr>loads := loads s1 @ [posIn s1]\<rparr>))
          (store (posOut s1) (strIn ! posIn s1) (t1\<lparr>loads := loads s1 @ [posIn s1]\<rparr>))"
        by (rule same_writes_store)
      then have "same_writes
          ((store (posOut s1) (strIn ! posIn s1) (s1\<lparr>loads := loads s1 @ [posIn s1]\<rparr>))
             \<lparr>posIn := posIn s1 + 1, posOut := posOut s1 + 1\<rparr>)
          ((store (posOut s1) (strIn ! posIn s1) (t1\<lparr>loads := loads s1 @ [posIn s1]\<rparr>))
             \<lparr>posIn := posIn s1 + 1, posOut := posOut s1 + 1\<rparr>)"
        by (rule same_writes_locals)
      with True False show ?thesis
        by (simp add: fsst_body_def Let_def eq s1_def t1_def)
    next
      case nr: False
      have "same_writes (s1\<lparr>posIn := posIn s1 + 1, posOut := posOut s1 + 1\<rparr>)
          (t1\<lparr>posIn := posIn s1 + 1, posOut := posOut s1 + 1\<rparr>)"
        using st1 by (rule same_writes_locals)
      with nr False show ?thesis
        by (auto simp: fsst_body_def Let_def eq s1_def t1_def)
    qed
  qed
qed

lemma fsst_loop_same_writes:
  assumes "same_writes s t"
  shows "rel_sum (=) same_writes (fsst_loop decoder strIn sz s) (fsst_loop decoder strIn sz t)"
  using assms
proof (induction decoder strIn sz s arbitrary: t rule: fsst_loop.induct)
  case (1 decoder strIn sz s)
  from "1.prems" have eq: "posIn t = posIn s"
    by (simp add: same_writes_def)
  show ?case
  proof (cases "posIn s < length strIn")
    case False
    with "1.prems" eq show ?thesis
      by (simp add: fsst_loop.simps [of decoder strIn sz s] fsst_loop.simps [of decoder strIn sz t])
  next
    case True
    note rel = fsst_body_same_writes [OF "1.prems", of decoder strIn sz]
    show ?thesis
    proof (cases "fsst_body decoder strIn sz s")
      case (Inl e)
      with rel have "fsst_body decoder strIn sz t = Inl e"
        by (cases "fsst_body decoder strIn sz t") simp_all
      with Inl True eq show ?thesis
        by (simp add: fsst_loop.simps [of decoder strIn sz s] fsst_loop.simps [of decoder strIn sz t])
    next
      case (Inr s1)
      with rel obtain t1 where t1: "fsst_body decoder strIn sz t = Inr t1" "same_writes s1 t1"
        by (cases "fsst_body decoder strIn sz t") simp_all
      from "1.IH" [OF True Inr t1(2)] Inr t1(1) True eq show ?thesis
        by (simp add: fsst_loop.simps [of decoder strIn sz s] fsst_loop.simps [of decoder strIn sz t])
    qed
  qed
qed

subsection \<open>Stores and the capacity\<close>

lemma blit_log_below:
  assumes "i \<in> set (blit_log sz p n)"
  shows "i < sz"
proof -
  from assms obtain k where k: "i = of_nat k" "k < unat sz"
    by (auto simp: blit_log_def)
  from unat_of_nat_below [OF k(2)] k show ?thesis
    by (simp add: word_less_nat_alt)
qed

lemma stores_below_capacity:
  assumes "decoder_ok decoder"
    and "well_formed strIn"
    and "logical_length decoder strIn < 2 ^ 64"
    and "sz \<noteq> 0 \<or> zeroTerminated decoder AND 1 = 0"
  shows "\<exists>s'. fsst_decompress decoder strIn sz output = Inr s' \<and>
           (\<forall>i \<in> set (stores s'). i < sz)"
proof -
  from fsst_decompress_result [OF assms(1-3), of sz "output"]
  obtain s' where s': "fsst_decompress decoder strIn sz output = Inr s'"
      "stores s' = blit_log sz 0 (logical_length decoder strIn) @
             (if unat sz \<le> logical_length decoder strIn \<and> zeroTerminated decoder AND 1 \<noteq> 0
              then [sz - 1] else [])"
    by blast
  have "sz - 1 < sz" if "sz \<noteq> 0"
    using that by unat_arith
  with assms(4) s' show ?thesis
    by (auto dest: blit_log_below)
qed

section \<open>The claims\<close>

text \<open>
  C1. For a table that keeps its invariant and a well-formed compressed string whose
  logical length fits \<open>size_t\<close>, \<open>fsst_decompress\<close> returns, and the value it returns is
  the logical length: the sum of \<open>len[code]\<close> over the code bytes plus 1 for each escape
  unit. The capacity \<open>sz\<close> and the buffer are arbitrary, so the value neither depends on
  the capacity nor is bounded by it.
\<close>

theorem fsst_decompress_returns_logical_length:
  assumes "decoder_ok decoder"
    and "well_formed strIn"
    and "logical_length decoder strIn < 2 ^ 64"
  shows "\<exists>s'. fsst_decompress decoder strIn sz output = Inr s' \<and>
           unat (posOut s') = logical_length decoder strIn"
  using fsst_decompress_result [OF assms, of sz "output"] by blast

theorem fsst_decompress_returns_logical_length_witness:
  "decoder_ok example_table \<and> well_formed [5, 6, 255, 33] \<and>
   logical_length example_table [5, 6, 255, 33] < 2 ^ 64 \<and>
   (\<exists>s'. fsst_decompress example_table [5, 6, 255, 33] 4 (filled 7) = Inr s' \<and>
         unat (posOut s') = 6)"
  using fsst_decompress_returns_logical_length
      [of example_table "[5, 6, 255, 33]" 4 "filled 7"]
    example_table_ok example_well_formed example_length
  by simp

text \<open>
  C2. Truncation correctness. Under the same three conditions, for every capacity \<open>sz\<close>
  the call returns the logical length \<open>L\<close>, and every byte of the buffer below
  \<open>min sz L\<close> is the byte of the decompressed string at that position. The one
  exception is the position \<open>sz - 1\<close> when the zero-terminated flag is set and
  \<open>sz \<le> L\<close>: it holds the terminator 0. With \<open>sz < L\<close> this is the truncated case, with
  \<open>sz \<ge> L\<close> the whole string is in the buffer, and the override applies only when
  \<open>sz = L\<close>.
\<close>

theorem truncation_correctness:
  assumes "decoder_ok decoder"
    and "well_formed strIn"
    and "logical_length decoder strIn < 2 ^ 64"
  shows "\<exists>s'. fsst_decompress decoder strIn sz output = Inr s' \<and>
           unat (posOut s') = logical_length decoder strIn \<and>
           (\<forall>i < min (unat sz) (logical_length decoder strIn).
              strOut s' (of_nat i) =
                (if zeroTerminated decoder AND 1 \<noteq> 0 \<and> unat sz \<le> logical_length decoder strIn
                    \<and> i = unat sz - 1
                 then 0 else expand decoder strIn ! i))"
proof -
  from fsst_decompress_result [OF assms, of sz "output"]
  obtain s' where s': "fsst_decompress decoder strIn sz output = Inr s'"
      "unat (posOut s') = logical_length decoder strIn"
      "strOut s' =
             (if unat sz \<le> logical_length decoder strIn \<and> zeroTerminated decoder AND 1 \<noteq> 0
              then (blit output sz 0 (expand decoder strIn))(sz - 1 := 0)
              else blit output sz 0 (expand decoder strIn))"
    by blast
  have "strOut s' (of_nat i) =
                (if zeroTerminated decoder AND 1 \<noteq> 0 \<and> unat sz \<le> logical_length decoder strIn
                    \<and> i = unat sz - 1
                 then 0 else expand decoder strIn ! i)"
    if "i < min (unat sz) (logical_length decoder strIn)" for i
  proof -
    from that have i: "i < unat sz" "i < length (expand decoder strIn)"
      by (simp_all add: length_expand)
    show ?thesis
    proof (cases "zeroTerminated decoder AND 1 \<noteq> 0 \<and> unat sz \<le> logical_length decoder strIn
                    \<and> i = unat sz - 1")
      case True
      then have "of_nat i = sz - 1"
        using of_nat_eq_pred [OF i(1)] by simp
      with True show ?thesis by (simp add: s'(3))
    next
      case False
      then have "strOut s' (of_nat i) = blit output sz 0 (expand decoder strIn) (of_nat i)"
        using of_nat_eq_pred [OF i(1)] by (auto simp: s'(3))
      with False show ?thesis
        using blit_at [OF i, of "output"] by auto
    qed
  qed
  with s'(1,2) show ?thesis by blast
qed

theorem truncation_correctness_witness:
  "decoder_ok example_table_z \<and> well_formed [5, 6, 255, 33] \<and>
   logical_length example_table_z [5, 6, 255, 33] < 2 ^ 64 \<and>
   (\<exists>s'. fsst_decompress example_table_z [5, 6, 255, 33] 4 (filled 7) = Inr s' \<and>
         unat (posOut s') = 6 \<and> strOut s' 0 = 104 \<and> strOut s' 1 = 101 \<and>
         strOut s' 2 = 108 \<and> strOut s' 3 = 0)"
proof -
  note t = truncation_correctness
    [OF example_table_z_ok example_well_formed example_fits_z, of 4 "filled 7",
     unfolded example_length_z example_expand_z]
  from t obtain s' where r: "fsst_decompress example_table_z [5, 6, 255, 33] 4 (filled 7) = Inr s'"
      "unat (posOut s') = 6"
    and bytes: "\<And>i. i < 4 \<Longrightarrow> strOut s' (of_nat i) =
        (if i = 3 then 0 else [104, 101, 108, 108, 111, 33] ! i)"
    by (auto simp: example_flag_z)
  from bytes [of 0] bytes [of 1] bytes [of 2] bytes [of 3]
  have "strOut s' 0 = 104 \<and> strOut s' 1 = 101 \<and> strOut s' 2 = 108 \<and> strOut s' 3 = 0"
    by simp
  with r example_table_z_ok example_well_formed example_fits_z show ?thesis by blast
qed

text \<open>
  C3. Zero termination under truncation. The flag is bit 0 of \<open>zeroTerminated\<close>, which
  is what the code tests. When it is set and the capacity \<open>sz\<close> is at most the logical
  length, the byte at index \<open>sz - 1\<close> is 0 after the call, whatever the loop stored
  there; the index is computed in \<open>size_t\<close>, as in the source. When the logical length
  is below \<open>sz\<close> there is no forced store: the stores are exactly those of the loop, and
  the byte at \<open>sz - 1\<close> keeps the value it had before the call.
\<close>

theorem zero_termination_under_truncation:
  assumes "decoder_ok decoder"
    and "well_formed strIn"
    and "logical_length decoder strIn < 2 ^ 64"
    and "zeroTerminated decoder AND 1 \<noteq> 0"
  shows "\<exists>s'. fsst_decompress decoder strIn sz output = Inr s' \<and>
           (unat sz \<le> logical_length decoder strIn \<longrightarrow> strOut s' (sz - 1) = 0) \<and>
           (logical_length decoder strIn < unat sz \<longrightarrow>
              stores s' = map of_nat [0..<logical_length decoder strIn] \<and>
              strOut s' (sz - 1) = output (sz - 1))"
proof -
  from fsst_decompress_result [OF assms(1-3), of sz "output"]
  obtain s' where s': "fsst_decompress decoder strIn sz output = Inr s'"
      "strOut s' =
             (if unat sz \<le> logical_length decoder strIn \<and> zeroTerminated decoder AND 1 \<noteq> 0
              then (blit output sz 0 (expand decoder strIn))(sz - 1 := 0)
              else blit output sz 0 (expand decoder strIn))"
      "stores s' = blit_log sz 0 (logical_length decoder strIn) @
             (if unat sz \<le> logical_length decoder strIn \<and> zeroTerminated decoder AND 1 \<noteq> 0
              then [sz - 1] else [])"
    by blast
  have "strOut s' (sz - 1) = output (sz - 1)" if "logical_length decoder strIn < unat sz"
  proof -
    from that have "unat (sz - 1) = unat sz - 1"
      by (intro unat_pred) simp
    with that have "min (length (expand decoder strIn)) (unat sz) \<le> unat (sz - 1)"
      by (simp add: length_expand)
    then show ?thesis
      using that by (simp add: s'(2) blit_outside)
  qed
  then show ?thesis
    using s' assms(4) by (auto simp: blit_log_def min_def)
qed

theorem zero_termination_under_truncation_witness:
  "decoder_ok example_table_z \<and> well_formed [5, 6, 255, 33] \<and>
   logical_length example_table_z [5, 6, 255, 33] < 2 ^ 64 \<and>
   zeroTerminated example_table_z AND 1 \<noteq> 0 \<and>
   unat (4 :: size_t) \<le> logical_length example_table_z [5, 6, 255, 33] \<and>
   logical_length example_table_z [5, 6, 255, 33] < unat (9 :: size_t) \<and>
   (\<exists>s'. fsst_decompress example_table_z [5, 6, 255, 33] 4 (filled 7) = Inr s' \<and>
         strOut s' 3 = 0) \<and>
   (\<exists>s'. fsst_decompress example_table_z [5, 6, 255, 33] 9 (filled 7) = Inr s' \<and>
         stores s' = [0, 1, 2, 3, 4, 5] \<and> strOut s' 8 = 7)"
proof -
  have six: "map of_nat [0..<6] = [0, 1, 2, 3, 4, 5 :: size_t]"
    by (simp add: upt_rec)
  have le: "unat (4 :: size_t) \<le> logical_length example_table_z [5, 6, 255, 33]"
    and lt: "logical_length example_table_z [5, 6, 255, 33] < unat (9 :: size_t)"
    unfolding example_length_z by simp_all
  note t = zero_termination_under_truncation
    [OF example_table_z_ok example_well_formed example_fits_z example_flag_z]
  from t [of 4 "filled 7"] le
  have a: "\<exists>s'. fsst_decompress example_table_z [5, 6, 255, 33] 4 (filled 7) = Inr s' \<and>
         strOut s' 3 = 0"
    by auto
  from t [of 9 "filled 7", unfolded example_length_z six] lt
  have b: "\<exists>s'. fsst_decompress example_table_z [5, 6, 255, 33] 9 (filled 7) = Inr s' \<and>
         stores s' = [0, 1, 2, 3, 4, 5] \<and> strOut s' 8 = 7"
    by (auto simp: filled_def)
  from a b le lt example_table_z_ok example_well_formed example_fits_z example_flag_z
  show ?thesis by blast
qed

text \<open>
  C6. Empty input. For every table and every capacity the call on the empty string
  returns 0, leaves every byte of the buffer (the indices below \<open>sz\<close>) as it was, and
  stores to no index below \<open>sz\<close>.
\<close>

theorem empty_input:
  "\<exists>s'. fsst_decompress decoder [] sz output = Inr s' \<and> posOut s' = 0 \<and>
         (\<forall>i. i < sz \<longrightarrow> strOut s' i = output i) \<and>
         (\<forall>i \<in> set (stores s'). \<not> i < sz)"
proof -
  have loop: "fsst_loop decoder [] sz (fsst_init output) = Inr (fsst_init output)"
    using fsst_loop.simps [of decoder "[]" sz "fsst_init output"] by simp
  show ?thesis
    unfolding fsst_decompress_def loop by (auto simp: fsst_init_def)
qed

theorem empty_input_witness:
  "(\<exists>s'. fsst_decompress example_table_z [] 4 (filled 7) = Inr s' \<and> posOut s' = 0 \<and>
         (0 :: size_t) < 4 \<and> strOut s' 0 = 7) \<and>
   (\<exists>s'. fsst_decompress example_table_z [] 0 (filled 7) = Inr s' \<and> posOut s' = 0 \<and>
         - 1 \<in> set (stores s') \<and> \<not> (- 1 :: size_t) < 0)"
proof -
  from empty_input [of example_table_z 4 "filled 7"]
  obtain s' where r: "fsst_decompress example_table_z [] 4 (filled 7) = Inr s'" "posOut s' = 0"
    and unchanged: "\<And>i :: size_t. i < 4 \<Longrightarrow> strOut s' i = filled 7 i"
    by blast
  from r unchanged [of 0]
  have a: "\<exists>s'. fsst_decompress example_table_z [] 4 (filled 7) = Inr s' \<and> posOut s' = 0 \<and>
         (0 :: size_t) < 4 \<and> strOut s' 0 = 7"
    by (auto simp: filled_def)
  from empty_input [of example_table_z 0 "filled 7"]
  obtain s0 where r0: "fsst_decompress example_table_z [] 0 (filled 7) = Inr s0" "posOut s0 = 0"
    and outside: "\<And>i. i \<in> set (stores s0) \<Longrightarrow> \<not> i < 0"
    by blast
  have "stores s0 = [- 1]"
    using r0(1) fsst_loop.simps [of example_table_z "[]" 0 "fsst_init (filled 7)"] example_flag_z
    by (auto simp: fsst_decompress_def fsst_init_def)
  then have "- 1 \<in> set (stores s0)" by simp
  with r0 outside [of "- 1"]
  have b: "\<exists>s'. fsst_decompress example_table_z [] 0 (filled 7) = Inr s' \<and> posOut s' = 0 \<and>
         - 1 \<in> set (stores s') \<and> \<not> (- 1 :: size_t) < 0"
    by blast
  from a b show ?thesis by blast
qed

text \<open>
  C10. Frame of the output memory. Under the conditions of C1, every byte at an index
  from \<open>min L sz\<close> on is as it was before the call, except the byte at \<open>sz - 1\<close> when the
  zero-terminated flag is set and \<open>sz \<le> L\<close>: that byte is 0.
\<close>

theorem output_frame:
  assumes "decoder_ok decoder"
    and "well_formed strIn"
    and "logical_length decoder strIn < 2 ^ 64"
  shows "\<exists>s'. fsst_decompress decoder strIn sz output = Inr s' \<and>
           (\<forall>i. min (logical_length decoder strIn) (unat sz) \<le> unat i \<longrightarrow>
              strOut s' i =
                (if zeroTerminated decoder AND 1 \<noteq> 0 \<and> unat sz \<le> logical_length decoder strIn
                    \<and> i = sz - 1
                 then 0 else output i))"
proof -
  from fsst_decompress_result [OF assms(1-3), of sz "output"]
  obtain s' where s': "fsst_decompress decoder strIn sz output = Inr s'"
      "strOut s' =
             (if unat sz \<le> logical_length decoder strIn \<and> zeroTerminated decoder AND 1 \<noteq> 0
              then (blit output sz 0 (expand decoder strIn))(sz - 1 := 0)
              else blit output sz 0 (expand decoder strIn))"
    by blast
  have "blit output sz 0 (expand decoder strIn) i = output i"
    if "min (logical_length decoder strIn) (unat sz) \<le> unat i" for i
    using that by (intro blit_outside) (simp add: length_expand)
  with s' show ?thesis by auto
qed

theorem output_frame_witness:
  "decoder_ok example_table_z \<and> well_formed [5, 6, 255, 33] \<and>
   logical_length example_table_z [5, 6, 255, 33] < 2 ^ 64 \<and>
   min (logical_length example_table_z [5, 6, 255, 33]) (unat (4 :: size_t)) \<le> unat (5 :: size_t) \<and>
   (\<exists>s'. fsst_decompress example_table_z [5, 6, 255, 33] 4 (filled 7) = Inr s' \<and>
         strOut s' 5 = 7 \<and> strOut s' 4 = 7)"
proof -
  have le: "min (logical_length example_table_z [5, 6, 255, 33]) (unat (4 :: size_t)) \<le> unat (5 :: size_t)"
    unfolding example_length_z by simp
  note t = output_frame
    [OF example_table_z_ok example_well_formed example_fits_z, of 4 "filled 7",
     unfolded example_length_z]
  from t obtain s' where r: "fsst_decompress example_table_z [5, 6, 255, 33] 4 (filled 7) = Inr s'"
    and frame: "\<And>i :: size_t. 4 \<le> unat i \<Longrightarrow> strOut s' i = (if i = 3 then 0 else filled 7 i)"
    by (auto simp: example_flag_z)
  from frame [of 5] frame [of 4] have "strOut s' 5 = 7 \<and> strOut s' 4 = 7"
    by (simp add: filled_def)
  with r le example_table_z_ok example_well_formed example_fits_z show ?thesis by blast
qed

text \<open>
  C5. Escape fidelity, as the code has it. For every table, every byte \<open>b\<close> and every
  capacity \<open>sz \<ge> 1\<close>, decompressing \<open>[255, b]\<close> returns 1 and stores \<open>b\<close> at index 0.
  After the call index 0 holds \<open>b\<close>, unless the zero-terminated flag is set and
  \<open>sz = 1\<close>: then the terminator 0 is stored over it. In general, one iteration of the
  loop on an escape byte that is followed by its literal moves the input cursor by 2
  and the output cursor by 1, and stores the literal at the output cursor exactly when
  that cursor is below \<open>sz\<close>.
\<close>

theorem escape_fidelity:
  "(1 \<le> sz \<longrightarrow>
      (\<exists>s'. fsst_decompress decoder [255, b] sz output = Inr s' \<and> posOut s' = 1 \<and>
            loads s' = [0, 1] \<and>
            stores s' = 0 # (if zeroTerminated decoder AND 1 \<noteq> 0 \<and> sz = 1 then [0] else []) \<and>
            strOut s' 0 = (if zeroTerminated decoder AND 1 \<noteq> 0 \<and> sz = 1 then 0 else b))) \<and>
   (strIn ! posIn s = 255 \<and> Suc (posIn s) < length strIn \<longrightarrow>
      (\<exists>s1. fsst_body decoder strIn sz s = Inr s1 \<and>
            posIn s1 = posIn s + 2 \<and> posOut s1 = posOut s + 1 \<and>
            strOut s1 = (if posOut s < sz then (strOut s)(posOut s := strIn ! (posIn s + 1))
                         else strOut s)))"
proof (intro conjI impI)
  assume sz: "1 \<le> sz"
  have "sz \<le> 1 \<longleftrightarrow> sz = 1"
    using sz by auto
  then show "\<exists>s'. fsst_decompress decoder [255, b] sz output = Inr s' \<and> posOut s' = 1 \<and>
            loads s' = [0, 1] \<and>
            stores s' = 0 # (if zeroTerminated decoder AND 1 \<noteq> 0 \<and> sz = 1 then [0] else []) \<and>
            strOut s' 0 = (if zeroTerminated decoder AND 1 \<noteq> 0 \<and> sz = 1 then 0 else b)"
    unfolding fsst_decompress_def escape_pair_loop [OF sz]
    by (auto simp: store_def)
next
  assume "strIn ! posIn s = 255 \<and> Suc (posIn s) < length strIn"
  then show "\<exists>s1. fsst_body decoder strIn sz s = Inr s1 \<and>
            posIn s1 = posIn s + 2 \<and> posOut s1 = posOut s + 1 \<and>
            strOut s1 = (if posOut s < sz then (strOut s)(posOut s := strIn ! (posIn s + 1))
                         else strOut s)"
    using fsst_body_escape [of strIn s decoder sz]
    by (simp add: blit_single)
qed

theorem escape_fidelity_witness:
  "(1 :: size_t) \<le> 2 \<and>
   (\<exists>s'. fsst_decompress example_table_z [255, 33] 2 (filled 7) = Inr s' \<and> posOut s' = 1 \<and>
         stores s' = [0] \<and> strOut s' 0 = 33) \<and>
   [5, 255, 33] ! posIn (fsst_init (filled 7)\<lparr>posIn := 1, posOut := 2\<rparr>) = (255 :: byte) \<and>
   Suc (posIn (fsst_init (filled 7)\<lparr>posIn := 1, posOut := 2\<rparr>)) < length [5, 255, 33 :: byte] \<and>
   (\<exists>s1. fsst_body example_table_z [5, 255, 33] 2 (fsst_init (filled 7)\<lparr>posIn := 1, posOut := 2\<rparr>) = Inr s1 \<and>
         posIn s1 = 3 \<and> posOut s1 = 3 \<and> strOut s1 = filled 7)"
proof -
  have le: "(1 :: size_t) \<le> 2" by simp
  have pre: "[5, 255, 33] ! posIn (fsst_init (filled 7)\<lparr>posIn := 1, posOut := 2\<rparr>) = (255 :: byte) \<and>
      Suc (posIn (fsst_init (filled 7)\<lparr>posIn := 1, posOut := 2\<rparr>)) < length [5, 255, 33 :: byte]"
    by (simp add: fsst_init_def)
  note t = escape_fidelity [of 2 example_table_z 33 "filled 7" "[5, 255, 33]"
      "fsst_init (filled 7)\<lparr>posIn := 1, posOut := 2\<rparr>"]
  from t le have a: "\<exists>s'. fsst_decompress example_table_z [255, 33] 2 (filled 7) = Inr s' \<and>
      posOut s' = 1 \<and> stores s' = [0] \<and> strOut s' 0 = 33"
    by auto
  from t pre have b: "\<exists>s1. fsst_body example_table_z [5, 255, 33] 2
        (fsst_init (filled 7)\<lparr>posIn := 1, posOut := 2\<rparr>) = Inr s1 \<and>
      posIn s1 = 3 \<and> posOut s1 = 3 \<and> strOut s1 = filled 7"
    by (auto simp: fsst_init_def)
  from le a pre b show ?thesis by blast
qed

text \<open>
  The claim C5 as it was stated, "for every table and every capacity \<open>sz \<ge> 1\<close> the byte
  at index 0 is \<open>b\<close>", fails in zero-terminated mode with capacity 1: the call returns 1,
  and index 0 holds 0, not 33.
\<close>

theorem escape_fidelity_counterexample:
  "(1 :: size_t) \<le> 1 \<and>
   returned (fsst_decompress example_table_z [255, 33] 1 (filled 7)) = Some 1 \<and>
   byte_at (fsst_decompress example_table_z [255, 33] 1 (filled 7)) 0 = Some 0 \<and>
   byte_at (fsst_decompress example_table_z [255, 33] 1 (filled 7)) 0 \<noteq> Some 33"
  by code_simp

text \<open>
  C4. Bounds of the stores. The two stores of the loop are guarded by the capacity; the
  terminator store \<open>strOut[size-1] = 0\<close> is guarded by \<open>posOut >= size\<close> only. With
  capacity 0 that guard holds for every input, \<open>size - 1\<close> wraps to the largest
  \<open>size_t\<close>, and in zero-terminated mode the function stores one byte in front of the
  buffer. Here on a valid table, the empty string and capacity 0: the only store goes to
  index \<open>- 1\<close>, which is not below the capacity, and the byte there becomes 0. With a
  capacity other than 0, or with the flag clear, every store is below the capacity
  (\<open>stores_below_capacity\<close>), and for a valid table no load leaves the eight bytes of
  a symbol entry: such a load is the fault \<open>SymbolOverread\<close>, and the runs above
  return without a fault.
\<close>

theorem terminator_store_outside_empty_buffer:
  "decoder_ok example_table_z \<and> well_formed [] \<and>
   returned (fsst_decompress example_table_z [] 0 (filled 7)) = Some 0 \<and>
   stored (fsst_decompress example_table_z [] 0 (filled 7)) = Some [- 1] \<and>
   byte_at (fsst_decompress example_table_z [] 0 (filled 7)) (- 1) = Some 0 \<and>
   (0 :: size_t) \<le> - 1"
  by code_simp

text \<open>
  C7. The pointer-offset loop and the clamped copy. For a symbol of at most eight bytes
  whose end \<open>posOut + len[code]\<close> does not wrap, the inner loop of the source, started as
  the source starts it, ends in exactly the state the clamped per-byte copy produces.
  Hence, for a valid table and a well-formed input whose logical length fits \<open>size_t\<close>,
  the function with the clamped copy in place of the loop gives the same result: the
  same returned length, the same memory, the same loads and stores.
\<close>

theorem copy_loop_refinement:
  fixes c :: byte
  shows
  "(unat (len decoder ! unat c) \<le> 8 \<and> unat (posOut s) + unat (len decoder ! unat c) < 2 ^ 64 \<longrightarrow>
      copy_loop decoder (unat c) (posOut s)
        (if sz < posOut s + ucast (len decoder ! unat c) then sz
         else posOut s + ucast (len decoder ! unat c))
        (posOut s) (s\<lparr>posOut := posOut s + ucast (len decoder ! unat c)\<rparr>) =
      Inr ((clamped_copy decoder (unat c) sz s)
             \<lparr>posOut := posOut s + ucast (len decoder ! unat c)\<rparr>)) \<and>
   (decoder_ok decoder \<and> well_formed strIn \<and> logical_length decoder strIn < 2 ^ 64 \<longrightarrow>
      fsst_decompress_clamped decoder strIn sz' output = fsst_decompress decoder strIn sz' output)"
proof (intro conjI impI)
  assume "unat (len decoder ! unat c) \<le> 8 \<and> unat (posOut s) + unat (len decoder ! unat c) < 2 ^ 64"
  then show "copy_loop decoder (unat c) (posOut s)
        (if sz < posOut s + ucast (len decoder ! unat c) then sz
         else posOut s + ucast (len decoder ! unat c))
        (posOut s) (s\<lparr>posOut := posOut s + ucast (len decoder ! unat c)\<rparr>) =
      Inr ((clamped_copy decoder (unat c) sz s)
             \<lparr>posOut := posOut s + ucast (len decoder ! unat c)\<rparr>)"
    by (intro copy_loop_clamped) simp_all
next
  assume a: "decoder_ok decoder \<and> well_formed strIn \<and> logical_length decoder strIn < 2 ^ 64"
  then have "run_inv decoder strIn (fsst_init output)"
    by (intro run_inv_init) simp_all
  with a have "fsst_loop_clamped decoder strIn sz' (fsst_init output) =
      fsst_loop decoder strIn sz' (fsst_init output)"
    by (intro fsst_loop_clamped_eq) simp_all
  then show "fsst_decompress_clamped decoder strIn sz' output = fsst_decompress decoder strIn sz' output"
    by (simp add: fsst_decompress_clamped_def fsst_decompress_def)
qed

theorem copy_loop_refinement_witness:
  "unat (len example_table ! unat (5 :: byte)) \<le> 8 \<and>
   unat (posOut (fsst_init (filled 7))) + unat (len example_table ! unat (5 :: byte)) < 2 ^ 64 \<and>
   copy_loop example_table (unat (5 :: byte)) (posOut (fsst_init (filled 7)))
        (if 1 < posOut (fsst_init (filled 7)) + ucast (len example_table ! unat (5 :: byte)) then 1
         else posOut (fsst_init (filled 7)) + ucast (len example_table ! unat (5 :: byte)))
        (posOut (fsst_init (filled 7)))
        (fsst_init (filled 7)
           \<lparr>posOut := posOut (fsst_init (filled 7)) + ucast (len example_table ! unat (5 :: byte))\<rparr>) =
      Inr ((clamped_copy example_table (unat (5 :: byte)) 1 (fsst_init (filled 7)))
             \<lparr>posOut := posOut (fsst_init (filled 7)) + ucast (len example_table ! unat (5 :: byte))\<rparr>) \<and>
   decoder_ok example_table \<and> well_formed [5, 6, 255, 33] \<and>
   logical_length example_table [5, 6, 255, 33] < 2 ^ 64 \<and>
   fsst_decompress_clamped example_table [5, 6, 255, 33] 4 (filled 7) =
     fsst_decompress example_table [5, 6, 255, 33] 4 (filled 7)"
proof -
  have h1: "unat (len example_table ! unat (5 :: byte)) \<le> 8"
    by (simp add: example_table_def)
  have h2: "unat (posOut (fsst_init (filled 7))) + unat (len example_table ! unat (5 :: byte)) < 2 ^ 64"
    by (simp add: fsst_init_def example_table_def)
  note t = copy_loop_refinement [of example_table 5 "fsst_init (filled 7)" 1 "[5, 6, 255, 33]" 4 "filled 7"]
  from t h1 h2 have a: "copy_loop example_table (unat (5 :: byte)) (posOut (fsst_init (filled 7)))
        (if 1 < posOut (fsst_init (filled 7)) + ucast (len example_table ! unat (5 :: byte)) then 1
         else posOut (fsst_init (filled 7)) + ucast (len example_table ! unat (5 :: byte)))
        (posOut (fsst_init (filled 7)))
        (fsst_init (filled 7)
           \<lparr>posOut := posOut (fsst_init (filled 7)) + ucast (len example_table ! unat (5 :: byte))\<rparr>) =
      Inr ((clamped_copy example_table (unat (5 :: byte)) 1 (fsst_init (filled 7)))
             \<lparr>posOut := posOut (fsst_init (filled 7)) + ucast (len example_table ! unat (5 :: byte))\<rparr>)"
    by (rule conjunct1 [THEN mp, OF _ conjI])
  from t example_table_ok example_well_formed example_fits
  have b: "fsst_decompress_clamped example_table [5, 6, 255, 33] 4 (filled 7) =
     fsst_decompress example_table [5, 6, 255, 33] 4 (filled 7)"
    by (intro conjunct2 [THEN mp, OF t]) (intro conjI)
  from h1 h2 a b example_table_ok example_well_formed example_fits show ?thesis
    by (intro conjI)
qed

text \<open>
  C8. Termination and the cursors. Every function of the model is total: the loop is
  defined with the measure \<open>lenIn - posIn\<close>, which each iteration decreases, so
  \<open>fsst_decompress\<close> has a value for every table and every input. Along the states of
  the run the input cursor increases strictly, and the loop continues exactly from the
  states with \<open>posIn < lenIn\<close>. When the loop ends without a fault, it ends in the last
  state of the run with \<open>posIn \<ge> lenIn\<close>, and the indices loaded from the input are
  strictly increasing and below \<open>lenIn\<close>: one pass, no byte read twice. For a valid
  table and a well-formed input whose logical length fits \<open>size_t\<close> the loop ends without
  a fault with \<open>posIn = lenIn\<close>, and the output cursor never decreases.
\<close>

theorem single_pass_monotone_cursors:
  "sorted_wrt (\<lambda>a b. posIn a < posIn b) (fsst_states decoder strIn sz (fsst_init output)) \<and>
   (\<forall>a \<in> set (butlast (fsst_states decoder strIn sz (fsst_init output))). posIn a < length strIn) \<and>
   (\<forall>s'. fsst_loop decoder strIn sz (fsst_init output) = Inr s' \<longrightarrow>
      s' = last (fsst_states decoder strIn sz (fsst_init output)) \<and> length strIn \<le> posIn s' \<and>
      sorted_wrt (<) (loads s') \<and> (\<forall>k \<in> set (loads s'). k < length strIn)) \<and>
   (decoder_ok decoder \<and> well_formed strIn \<and> logical_length decoder strIn < 2 ^ 64 \<longrightarrow>
      (\<exists>s'. fsst_loop decoder strIn sz (fsst_init output) = Inr s' \<and> posIn s' = length strIn) \<and>
      sorted_wrt (\<lambda>a b. posOut a \<le> posOut b) (fsst_states decoder strIn sz (fsst_init output)))"
proof (intro conjI ballI allI impI)
  show "sorted_wrt (\<lambda>a b. posIn a < posIn b) (fsst_states decoder strIn sz (fsst_init output))"
    by (rule fsst_states_posIn_sorted)
next
  fix a assume "a \<in> set (butlast (fsst_states decoder strIn sz (fsst_init output)))"
  then show "posIn a < length strIn" by (rule fsst_states_continue)
next
  fix s' assume r: "fsst_loop decoder strIn sz (fsst_init output) = Inr s'"
  from fsst_loop_last_state [OF r]
  show "s' = last (fsst_states decoder strIn sz (fsst_init output))" and "length strIn \<le> posIn s'"
    by blast+
  have "loads_inv strIn (fsst_init output)"
    by (simp add: loads_inv_def fsst_init_def)
  from fsst_loop_loads [OF r this] show "sorted_wrt (<) (loads s')"
    and "\<And>k. k \<in> set (loads s') \<Longrightarrow> k < length strIn"
    by (simp_all add: loads_inv_def)
next
  assume a: "decoder_ok decoder \<and> well_formed strIn \<and> logical_length decoder strIn < 2 ^ 64"
  then have inv: "run_inv decoder strIn (fsst_init output)"
    by (intro run_inv_init) simp_all
  from a fsst_loop_result [of decoder "fsst_init output" strIn sz]
  show "\<exists>s'. fsst_loop decoder strIn sz (fsst_init output) = Inr s' \<and> posIn s' = length strIn"
    by (auto simp: fsst_init_def)
  from a inv show "sorted_wrt (\<lambda>a b. posOut a \<le> posOut b)
      (fsst_states decoder strIn sz (fsst_init output))"
    by (intro fsst_states_posOut_sorted) simp_all
qed

theorem single_pass_monotone_cursors_witness:
  "decoder_ok example_table \<and> well_formed [5, 6, 255, 33] \<and>
   logical_length example_table [5, 6, 255, 33] < 2 ^ 64 \<and>
   fsst_init (filled 7) \<in> set (butlast (fsst_states example_table [5, 6, 255, 33] 4 (fsst_init (filled 7)))) \<and>
   posIn (fsst_init (filled 7)) < length [5, 6, 255, 33 :: byte] \<and>
   sorted_wrt (\<lambda>a b. posIn a < posIn b) (fsst_states example_table [5, 6, 255, 33] 4 (fsst_init (filled 7))) \<and>
   sorted_wrt (\<lambda>a b. posOut a \<le> posOut b) (fsst_states example_table [5, 6, 255, 33] 4 (fsst_init (filled 7))) \<and>
   (\<exists>s'. fsst_loop example_table [5, 6, 255, 33] 4 (fsst_init (filled 7)) = Inr s' \<and>
      s' = last (fsst_states example_table [5, 6, 255, 33] 4 (fsst_init (filled 7))) \<and>
      posIn s' = 4 \<and> sorted_wrt (<) (loads s') \<and> (\<forall>k \<in> set (loads s'). k < 4))"
proof -
  note t = single_pass_monotone_cursors [of example_table "[5, 6, 255, 33]" 4 "filled 7"]
  have inv: "run_inv example_table [5, 6, 255, 33] (fsst_init (filled 7))"
    using example_well_formed example_fits by (rule run_inv_init)
  have lt: "posIn (fsst_init (filled 7)) < length [5, 6, 255, 33 :: byte]"
    by (simp add: fsst_init_def)
  from fsst_body_step [OF example_table_ok inv lt, of 4]
  obtain s1 where "fsst_body example_table [5, 6, 255, 33] 4 (fsst_init (filled 7)) = Inr s1"
    by blast
  with lt have mem: "fsst_init (filled 7) \<in>
      set (butlast (fsst_states example_table [5, 6, 255, 33] 4 (fsst_init (filled 7))))"
    by (simp add: fsst_states_unfold [of example_table "[5, 6, 255, 33]" 4 "fsst_init (filled 7)"]
        fsst_states_not_Nil)
  from t example_table_ok example_well_formed example_fits
  obtain s' where r: "fsst_loop example_table [5, 6, 255, 33] 4 (fsst_init (filled 7)) = Inr s'"
      "posIn s' = length [5, 6, 255, 33 :: byte]"
    and po: "sorted_wrt (\<lambda>a b. posOut a \<le> posOut b)
      (fsst_states example_table [5, 6, 255, 33] 4 (fsst_init (filled 7)))"
    by blast
  from t r(1) have fin: "s' = last (fsst_states example_table [5, 6, 255, 33] 4 (fsst_init (filled 7)))"
      "sorted_wrt (<) (loads s')" "\<forall>k \<in> set (loads s'). k < length [5, 6, 255, 33 :: byte]"
    by blast+
  from t have pi: "sorted_wrt (\<lambda>a b. posIn a < posIn b)
      (fsst_states example_table [5, 6, 255, 33] 4 (fsst_init (filled 7)))"
    by blast
  have len4: "length [5, 6, 255, 33 :: byte] = 4" by simp
  note p4 = r(2) [unfolded len4] and l4 = fin(3) [unfolded len4]
  from r(1) fin(1,2) p4 l4
  have "\<exists>s'. fsst_loop example_table [5, 6, 255, 33] 4 (fsst_init (filled 7)) = Inr s' \<and>
      s' = last (fsst_states example_table [5, 6, 255, 33] 4 (fsst_init (filled 7))) \<and>
      posIn s' = 4 \<and> sorted_wrt (<) (loads s') \<and> (\<forall>k \<in> set (loads s'). k < 4)"
    by blast
  with example_table_ok example_well_formed example_fits mem lt pi po show ?thesis
    by blast
qed

text \<open>
  C9. Determinism. Two calls with the same table, equal compressed strings and equal
  capacities either both fault, at the same place, or both return, and then they return
  the same length, perform the same loads and stores, and leave the same byte at every
  index they stored to. This holds for any two output memories, whatever they held
  before the calls.
\<close>

theorem fsst_decompress_deterministic:
  assumes "strIn1 = strIn2" and "sz1 = sz2"
  shows "rel_sum (=) same_writes (fsst_decompress decoder strIn1 sz1 output1)
                                  (fsst_decompress decoder strIn2 sz2 output2)"
proof -
  have init: "same_writes (fsst_init output1) (fsst_init output2)"
    by (simp add: same_writes_def fsst_init_def)
  note rel = fsst_loop_same_writes [OF init, of decoder strIn1 sz1]
  show ?thesis
  proof (cases "fsst_loop decoder strIn1 sz1 (fsst_init output1)")
    case (Inl e)
    with rel have "fsst_loop decoder strIn1 sz1 (fsst_init output2) = Inl e"
      by (cases "fsst_loop decoder strIn1 sz1 (fsst_init output2)") simp_all
    with Inl assms show ?thesis
      by (simp add: fsst_decompress_def)
  next
    case (Inr s)
    with rel obtain t where t: "fsst_loop decoder strIn1 sz1 (fsst_init output2) = Inr t"
        "same_writes s t"
      by (cases "fsst_loop decoder strIn1 sz1 (fsst_init output2)") simp_all
    from t(2) have "posOut t = posOut s"
      by (simp add: same_writes_def)
    with Inr t assms same_writes_store [OF t(2), of "sz1 - 1" 0] show ?thesis
      by (simp add: fsst_decompress_def)
  qed
qed

theorem fsst_decompress_deterministic_witness:
  "[5, 6, 255, 33] = [5, 6, 255, 33 :: byte] \<and> (4 :: size_t) = 4 \<and>
   (\<exists>s t. fsst_decompress example_table_z [5, 6, 255, 33] 4 (filled 7) = Inr s \<and>
          fsst_decompress example_table_z [5, 6, 255, 33] 4 (filled 9) = Inr t \<and>
          posOut s = posOut t \<and> stores s = stores t \<and>
          3 \<in> set (stores s) \<and> strOut s 3 = strOut t 3)"
proof -
  note t = fsst_decompress_deterministic [of "[5, 6, 255, 33]" "[5, 6, 255, 33]" 4 4
      example_table_z "filled 7" "filled 9"]
  from fsst_decompress_result [OF example_table_z_ok example_well_formed example_fits_z, of 4 "filled 7"]
  obtain s where s: "fsst_decompress example_table_z [5, 6, 255, 33] 4 (filled 7) = Inr s"
    and st: "stores s = blit_log 4 0 (logical_length example_table_z [5, 6, 255, 33]) @
             (if unat (4 :: size_t) \<le> logical_length example_table_z [5, 6, 255, 33]
                 \<and> zeroTerminated example_table_z AND 1 \<noteq> 0
              then [4 - 1] else [])"
    by blast
  from st have mem: "3 \<in> set (stores s)"
    unfolding example_length_z using example_flag_z by simp
  from t s obtain t' where t': "fsst_decompress example_table_z [5, 6, 255, 33] 4 (filled 9) = Inr t'"
      "same_writes s t'"
    by (cases "fsst_decompress example_table_z [5, 6, 255, 33] 4 (filled 9)") simp_all
  from t'(2) mem have "posOut s = posOut t'" "stores s = stores t'" "strOut s 3 = strOut t' 3"
    by (simp_all add: same_writes_def)
  with s t'(1) mem show ?thesis by blast
qed

end
